theory Spec2Isabelle
  imports Main "HOL-Library.Sublist" "HOL-Library.AList"
begin

section \<open>The maintenance commands of rssant (rssant_cli/rss.py)\<close>

text \<open>
  The commands of \<^verbatim>\<open>rss.py\<close> are batch loops over rows of a relational store.
  The store is modelled as a record of tables (lists of rows, in the order the
  database scans them) together with a journal of the write statements issued, so that
  "no write" and "a write of the same value" are different outcomes. Exceptions are
  values of the type \<open>error\<close>; a command that raises inside
  \<^verbatim>\<open>transaction.atomic()\<close> is rolled back and returns the error.
\<close>

subsection \<open>Rows, store and errors\<close>

datatype error =
    IntegrityError
  | FeedDoesNotExist
  | StoryDoesNotExist
  | KeyError
  | ZeroDivisionError
  | ValueError
  | IndexError
  | OverflowError

text \<open>
  Modelled from the spec: the model classes live in \<^verbatim>\<open>rssant_api.models\<close>, which is
  not part of the source at hand. The fields are those \<^verbatim>\<open>rss.py\<close> reads and writes;
  \<open>monthly_story_count\<close> is the ordered per-month histogram of the spec, a list of
  (month, count) entries whose truth value is non-emptiness. A NULL timestamp is
  \<open>None\<close>.
\<close>

type_synonym datetime = int

record feed =
  feed_pk :: int
  url :: string
  title :: string
  total_storys :: int
  monthly_story_count :: "(int \<times> nat) list"
  dryness :: int
  dt_first_story_published :: "datetime option"
  use_proxy :: bool

record story =
  story_pk :: int
  story_feed_id :: int
  story_offset :: int
  content :: string
  dt_published :: "datetime option"
  has_mathjax :: bool

record user_story =
  us_pk :: int
  us_user_id :: int
  us_feed_id :: int
  us_story_id :: int
  us_offset :: int

text \<open>
  The journal: one entry per write statement. \<open>SaveFeed\<close> carries the row as
  \<^verbatim>\<open>feed.save()\<close> writes it; \<open>SaveStory\<close> carries the key and the columns that
  \<^verbatim>\<open>story.save()\<close> writes for a story loaded with \<^verbatim>\<open>only('id', 'content', '_version')\<close>
  after \<open>has_mathjax\<close> was assigned.
\<close>

datatype db_write =
    UpdateOffset int int
  | SaveFeed feed
  | SaveStory int string bool
  | RefreshMonthlyStoryCount int
  | FixTotalStorys int int

datatype log_entry = StoryNotExists int

record store =
  feeds :: "feed list"
  storys :: "story list"
  userstorys :: "user_story list"
  writes :: "db_write list"
  warnings :: "log_entry list"

subsection \<open>fix_user_story_offset\<close>

text \<open>
  The mismatch report: \<^verbatim>\<open>SELECT us.id, us."offset", story."offset" FROM userstory us
  LEFT OUTER JOIN story ON us.story_id = story.id WHERE us."offset" != story."offset"\<close>.
  A user story without a story joins to NULL, the comparison is then NULL and the row is
  dropped, so the outer join returns what the inner join returns.
\<close>

definition sql_mismatch :: "store \<Rightarrow> (int \<times> int \<times> int) list" where
  "sql_mismatch s =
     [(us_pk us, us_offset us, story_offset st).
        us \<leftarrow> userstorys s, st \<leftarrow> storys s,
        us_story_id us = story_pk st, us_offset us \<noteq> story_offset st]"

text \<open>
  Modelled from the spec: the uniqueness constraint over (user, feed, offset) on the
  user story table is declared with the model class, outside the source at hand.
\<close>

definition unique_user_feed_offset :: "user_story list \<Rightarrow> bool" where
  "unique_user_feed_offset tbl =
     distinct (map (\<lambda>r. (us_user_id r, us_feed_id r, us_offset r)) tbl)"

text \<open>
  \<^verbatim>\<open>UserStory.objects.filter(pk=us_id).update(offset=v)\<close>: the statement fails with
  IntegrityError when another row of the same user and feed already holds \<open>v\<close>.
\<close>

definition update_offset :: "store \<Rightarrow> int \<Rightarrow> int \<Rightarrow> error + store" where
  "update_offset s pk v =
     (if list_ex (\<lambda>r. us_pk r = pk \<and>
            list_ex (\<lambda>r'. us_pk r' \<noteq> pk \<and> us_user_id r' = us_user_id r \<and>
                           us_feed_id r' = us_feed_id r \<and> us_offset r' = v)
              (userstorys s))
          (userstorys s)
      then Inl IntegrityError
      else Inr (s\<lparr>userstorys :=
                    map (\<lambda>r. if us_pk r = pk then r\<lparr>us_offset := v\<rparr> else r) (userstorys s),
                  writes := writes s @ [UpdateOffset pk v]\<rparr>))"

fun phase_a :: "store \<Rightarrow> (int \<times> int \<times> int) list \<Rightarrow> error + store" where
  "phase_a s [] = Inr s"
| "phase_a s ((us_id, us_off, story_off) # items) =
     (case update_offset s us_id (- us_off) of
        Inl e \<Rightarrow> Inl e
      | Inr s' \<Rightarrow> phase_a s' items)"

fun phase_b :: "store \<Rightarrow> (int \<times> int \<times> int) list \<Rightarrow> error + store" where
  "phase_b s [] = Inr s"
| "phase_b s ((us_id, us_off, story_off) # items) =
     (case update_offset s us_id story_off of
        Inl e \<Rightarrow> Inl e
      | Inr s' \<Rightarrow> phase_b s' items)"

definition fix_user_story_offset :: "store \<Rightarrow> error + store" where
  "fix_user_story_offset s =
     (let items = sql_mismatch s in
      if items = [] then Inr s
      else (case phase_a s items of
              Inl e \<Rightarrow> Inl e
            | Inr s1 \<Rightarrow> phase_b s1 items))"

text \<open>The hypotheses of the collision-freedom argument, as predicates on the table.\<close>

definition offsets_nonneg :: "user_story list \<Rightarrow> bool" where
  "offsets_nonneg tbl = list_all (\<lambda>r. 0 \<le> us_offset r) tbl"

definition same_scope :: "user_story \<Rightarrow> user_story \<Rightarrow> bool" where
  "same_scope r r' = (us_user_id r = us_user_id r' \<and> us_feed_id r = us_feed_id r')"

text \<open>The table after Phase A has negated the rows whose keys are in \<open>S\<close>.\<close>

definition negated :: "int set \<Rightarrow> user_story list \<Rightarrow> user_story list" where
  "negated S tbl = map (\<lambda>r. if us_pk r \<in> S then r\<lparr>us_offset := - us_offset r\<rparr> else r) tbl"

text \<open>
  Two user stories of one user and feed that have exchanged their offsets 0 and 1: the
  stories are at offsets 0 and 1, the user stories at 1 and 0.
\<close>

definition swap_store :: store where
  "swap_store =
     \<lparr>feeds = [],
      storys =
        [\<lparr>story_pk = 1, story_feed_id = 1, story_offset = 0, content = [],
          dt_published = None, has_mathjax = False\<rparr>,
         \<lparr>story_pk = 2, story_feed_id = 1, story_offset = 1, content = [],
          dt_published = None, has_mathjax = False\<rparr>],
      userstorys =
        [\<lparr>us_pk = 1, us_user_id = 1, us_feed_id = 1, us_story_id = 1, us_offset = 1\<rparr>,
         \<lparr>us_pk = 2, us_user_id = 1, us_feed_id = 1, us_story_id = 2, us_offset = 0\<rparr>],
      writes = [], warnings = []\<rparr>"

subsection \<open>The environment: Python builtins and modules outside the source at hand\<close>

text \<open>
  \<^verbatim>\<open>rss.py\<close> calls Python's \<^verbatim>\<open>str.strip\<close> and \<^verbatim>\<open>int\<close>, and functions of the packages
  \<^verbatim>\<open>rssant_common\<close> and \<^verbatim>\<open>rssant_feedlib\<close>. They are parameters of the model, collected
  in one record; every theorem holds for every environment. A \<open>None\<close> result is the
  exception the function raises (ValueError for \<^verbatim>\<open>int\<close>). \<open>rss_proxy_enable\<close> is the
  configuration flag \<^verbatim>\<open>CONFIG.rss_proxy_enable\<close>, and \<open>need_check\<close> is the row filter
  of the raw query of \<^verbatim>\<open>update_feed_use_proxy\<close> (title not like any pattern of the
  blacklist, and created since 2020-04-01 or at most five stories and not updated since
  2019-12-01), evaluated by the database.
\<close>

record env =
  str_strip :: "string \<Rightarrow> string"
  int_of_str :: "string \<Rightarrow> int option"
  unionid_decode :: "string \<Rightarrow> int list option"
  story_has_mathjax :: "string \<Rightarrow> bool"
  msc_dryness :: "(int \<times> nat) list \<Rightarrow> int"
  month_of :: "datetime \<Rightarrow> int"
  name_of :: "int \<Rightarrow> string"
  is_need_proxy :: "int \<Rightarrow> bool"
  rss_proxy_enable :: bool
  need_check :: "feed \<Rightarrow> bool"

text \<open>\<^verbatim>\<open>s.split(',')\<close>: the pieces between commas, at least one piece.\<close>

fun split_comma :: "string \<Rightarrow> string list" where
  "split_comma [] = [[]]"
| "split_comma (c # cs) =
     (if c = CHR '','' then [] # split_comma cs
      else (case split_comma cs of
              [] \<Rightarrow> [[c]]
            | x # xs \<Rightarrow> (c # x) # xs))"

text \<open>A list comprehension over a function that may raise: the first exception wins.\<close>

fun map_raise :: "('a \<Rightarrow> error + 'b) \<Rightarrow> 'a list \<Rightarrow> error + 'b list" where
  "map_raise f [] = Inr []"
| "map_raise f (x # xs) =
     (case f x of
        Inl e \<Rightarrow> Inl e
      | Inr y \<Rightarrow> (case map_raise f xs of Inl e \<Rightarrow> Inl e | Inr ys \<Rightarrow> Inr (y # ys)))"

definition py_int :: "env \<Rightarrow> string \<Rightarrow> error + int" where
  "py_int e x = (case int_of_str e x of None \<Rightarrow> Inl ValueError | Some n \<Rightarrow> Inr n)"

subsection \<open>Selecting the rows of a batch\<close>

definition decode_feed_ids :: "env \<Rightarrow> string \<Rightarrow> error + int list" where
  "decode_feed_ids e option_feeds =
     map_raise (py_int e) (split_comma (str_strip e option_feeds))"


definition get_all_feed_ids :: "store \<Rightarrow> int list" where
  "get_all_feed_ids s = map feed_pk (feeds s)"

text \<open>An option that was not given is \<open>None\<close>; \<open>None\<close> and the empty string are false.\<close>

definition get_feed_ids :: "env \<Rightarrow> store \<Rightarrow> string option \<Rightarrow> error + int list" where
  "get_feed_ids e s option_feeds =
     (case option_feeds of
        None \<Rightarrow> Inr (get_all_feed_ids s)
      | Some x \<Rightarrow>
          (if x \<noteq> [] \<and> x \<noteq> ''all'' then decode_feed_ids e x
           else Inr (get_all_feed_ids s)))"

text \<open>
  \<^verbatim>\<open>_get_story_ids\<close> returns the pieces of the option as strings, or the keys of all
  stories as integers; the lookup by primary key converts a string with \<^verbatim>\<open>int\<close>.
\<close>

datatype pk_arg = PkStr string | PkInt int

definition get_story_ids :: "env \<Rightarrow> store \<Rightarrow> string option \<Rightarrow> pk_arg list" where
  "get_story_ids e s option_storys =
     (case option_storys of
        None \<Rightarrow> map (\<lambda>r. PkInt (story_pk r)) (storys s)
      | Some x \<Rightarrow>
          (if x \<noteq> [] then map PkStr (split_comma (str_strip e x))
           else map (\<lambda>r. PkInt (story_pk r)) (storys s)))"

definition pk_value :: "env \<Rightarrow> pk_arg \<Rightarrow> error + int" where
  "pk_value e a = (case a of PkInt k \<Rightarrow> Inr k | PkStr x \<Rightarrow> py_int e x)"

subsection \<open>Lookups and saves of the object-relational mapper\<close>

definition get_by_pk :: "store \<Rightarrow> int \<Rightarrow> error + feed" where
  "get_by_pk s k =
     (case find (\<lambda>r. feed_pk r = k) (feeds s) of
        None \<Rightarrow> Inl FeedDoesNotExist
      | Some r \<Rightarrow> Inr r)"

text \<open>\<^verbatim>\<open>feed.refresh_from_db()\<close>: the object's fields are read again from its row.\<close>

definition refresh_from_db :: "store \<Rightarrow> feed \<Rightarrow> error + feed" where
  "refresh_from_db s f = get_by_pk s (feed_pk f)"

text \<open>
  \<^verbatim>\<open>feed.save()\<close> writes every field of the object to the row with its key, and inserts
  the row when there is none.
\<close>

definition save_feed :: "store \<Rightarrow> feed \<Rightarrow> store" where
  "save_feed s f =
     s\<lparr>feeds :=
          (if list_ex (\<lambda>r. feed_pk r = feed_pk f) (feeds s)
           then map (\<lambda>r. if feed_pk r = feed_pk f then f else r) (feeds s)
           else feeds s @ [f]),
        writes := writes s @ [SaveFeed f]\<rparr>"

definition get_story :: "env \<Rightarrow> store \<Rightarrow> pk_arg \<Rightarrow> error + story" where
  "get_story e s a =
     (case pk_value e a of
        Inl er \<Rightarrow> Inl er
      | Inr k \<Rightarrow>
          (case find (\<lambda>r. story_pk r = k) (storys s) of
             None \<Rightarrow> Inl StoryDoesNotExist
           | Some r \<Rightarrow> Inr r))"

text \<open>
  \<^verbatim>\<open>story.save()\<close> on a story loaded with deferred fields updates the loaded columns
  and the assigned one: \<open>content\<close> and \<open>has_mathjax\<close> here.
\<close>

definition save_story_mathjax :: "store \<Rightarrow> story \<Rightarrow> store" where
  "save_story_mathjax s st =
     s\<lparr>storys :=
          map (\<lambda>r. if story_pk r = story_pk st
                    then r\<lparr>content := content st, has_mathjax := has_mathjax st\<rparr>
                    else r)
            (storys s),
        writes := writes s @ [SaveStory (story_pk st) (content st) (has_mathjax st)]\<rparr>"

text \<open>
  A batch loop whose body runs in a transaction of its own: an exception rolls the
  current iteration back, leaves the earlier ones committed and ends the command. The
  result is the committed store and the exception, if any.
\<close>

fun batch :: "(store \<Rightarrow> 'a \<Rightarrow> error + store) \<Rightarrow> store \<Rightarrow> 'a list \<Rightarrow> store \<times> error option" where
  "batch body s [] = (s, None)"
| "batch body s (x # xs) =
     (case body s x of
        Inl e \<Rightarrow> (s, Some e)
      | Inr s' \<Rightarrow> batch body s' xs)"

subsection \<open>Story helpers of rssant_api.models\<close>

text \<open>
  Modelled from the spec: \<^verbatim>\<open>Story.get_by_offset\<close> is not in the source at hand. The spec
  says: look up the story at position 0 with full detail; absent is reported as
  \<^verbatim>\<open>Story.DoesNotExist\<close>.
\<close>

definition get_by_offset :: "store \<Rightarrow> int \<Rightarrow> int \<Rightarrow> error + story" where
  "get_by_offset s fid off =
     (case find (\<lambda>r. story_feed_id r = fid \<and> story_offset r = off) (storys s) of
        None \<Rightarrow> Inl StoryDoesNotExist
      | Some r \<Rightarrow> Inr r)"

text \<open>
  Modelled from the spec: \<^verbatim>\<open>Story.refresh_feed_monthly_story_count\<close> is not in the
  source at hand. The spec says: it rebuilds the per-month histogram from all stories'
  published timestamps and always overwrites.
\<close>

definition story_months :: "env \<Rightarrow> store \<Rightarrow> int \<Rightarrow> int list" where
  "story_months e s fid =
     concat (map (\<lambda>r. case dt_published r of None \<Rightarrow> [] | Some t \<Rightarrow> [month_of e t])
       (filter (\<lambda>r. story_feed_id r = fid) (storys s)))"

definition histogram :: "int list \<Rightarrow> (int \<times> nat) list" where
  "histogram ms = map (\<lambda>m. (m, count_list ms m)) (sort (remdups ms))"

definition refresh_feed_monthly_story_count :: "env \<Rightarrow> store \<Rightarrow> int \<Rightarrow> store" where
  "refresh_feed_monthly_story_count e s fid =
     s\<lparr>feeds :=
          map (\<lambda>r. if feed_pk r = fid
                    then r\<lparr>monthly_story_count := histogram (story_months e s fid)\<rparr>
                    else r)
            (feeds s),
        writes := writes s @ [RefreshMonthlyStoryCount fid]\<rparr>"

text \<open>
  Modelled from the spec: \<^verbatim>\<open>Story.query_feed_incorrect_total_storys\<close> and
  \<^verbatim>\<open>Story.fix_feed_total_storys\<close> are not in the source at hand. The spec says: the
  driver lists all feeds whose stored \<open>total_storys\<close> disagrees with a recomputed
  value; the repair recounts the stories owned by the feed, writes \<open>total_storys\<close>
  only if it differs from the recomputed value and reports whether a correction occurred.
\<close>

definition count_storys :: "store \<Rightarrow> int \<Rightarrow> int" where
  "count_storys s fid = int (length (filter (\<lambda>r. story_feed_id r = fid) (storys s)))"

definition query_feed_incorrect_total_storys :: "store \<Rightarrow> (int \<times> int \<times> int) list" where
  "query_feed_incorrect_total_storys s =
     map (\<lambda>r. (feed_pk r, total_storys r, count_storys s (feed_pk r)))
       (filter (\<lambda>r. total_storys r \<noteq> count_storys s (feed_pk r)) (feeds s))"

definition story_fix_feed_total_storys :: "store \<Rightarrow> int \<Rightarrow> store \<times> bool" where
  "story_fix_feed_total_storys s fid =
     (if list_ex (\<lambda>r. feed_pk r = fid \<and> total_storys r \<noteq> count_storys s fid) (feeds s)
      then (s\<lparr>feeds :=
                map (\<lambda>r. if feed_pk r = fid then r\<lparr>total_storys := count_storys s fid\<rparr> else r)
                  (feeds s),
              writes := writes s @ [FixTotalStorys fid (count_storys s fid)]\<rparr>, True)
      else (s, False))"

subsection \<open>fix_feed_total_storys\<close>

fun fix_loop :: "store \<Rightarrow> nat \<Rightarrow> (int \<times> int \<times> int) list \<Rightarrow> store \<times> nat" where
  "fix_loop s num_corrected [] = (s, num_corrected)"
| "fix_loop s num_corrected ((feed_id, rest) # incorrect_feeds) =
     (case story_fix_feed_total_storys s feed_id of
        (s', fixed) \<Rightarrow>
          fix_loop s' (if fixed then num_corrected + 1 else num_corrected) incorrect_feeds)"

text \<open>The result: the store and the number of corrected feeds (none in a dry run).\<close>

definition fix_feed_total_storys :: "store \<Rightarrow> bool \<Rightarrow> store \<times> nat" where
  "fix_feed_total_storys s dry_run =
     (let incorrect_feeds = query_feed_incorrect_total_storys s in
      if dry_run then (s, 0) else fix_loop s 0 incorrect_feeds)"

subsection \<open>update_feed_monthly_story_count\<close>

definition update_feed_monthly_story_count ::
    "env \<Rightarrow> store \<Rightarrow> string option \<Rightarrow> store \<times> error option" where
  "update_feed_monthly_story_count e s option_feeds =
     (case get_feed_ids e s option_feeds of
        Inl er \<Rightarrow> (s, Some er)
      | Inr feed_ids \<Rightarrow>
          batch (\<lambda>s feed_id. Inr (refresh_feed_monthly_story_count e s feed_id)) s feed_ids)"

subsection \<open>update_feed_dryness\<close>

definition dryness_body :: "env \<Rightarrow> store \<Rightarrow> int \<Rightarrow> error + store" where
  "dryness_body e s feed_id =
     (case get_by_pk s feed_id of
        Inl er \<Rightarrow> Inl er
      | Inr f \<Rightarrow>
          (if total_storys f \<le> 0 then Inr s
           else
             (let cnt = monthly_story_count f;
                  s1 = (if cnt = [] then refresh_feed_monthly_story_count e s feed_id else s)
              in case refresh_from_db s1 f of
                   Inl er \<Rightarrow> Inl er
                 | Inr f1 \<Rightarrow>
                     Inr (save_feed s1 (f1\<lparr>dryness := msc_dryness e (monthly_story_count f1)\<rparr>)))))"

definition update_feed_dryness ::
    "env \<Rightarrow> store \<Rightarrow> string option \<Rightarrow> store \<times> error option" where
  "update_feed_dryness e s option_feeds =
     (case get_feed_ids e s option_feeds of
        Inl er \<Rightarrow> (s, Some er)
      | Inr feed_ids \<Rightarrow> batch (dryness_body e) s feed_ids)"

subsection \<open>update_feed_dt_first_story_published\<close>

text \<open>
  A timestamp is true when it is set. \<^verbatim>\<open>LOG.warning\<close> adds an entry to the warnings; the
  iteration then ends with \<^verbatim>\<open>continue\<close>, so the loop goes on with the next feed.
\<close>

definition first_published_body :: "store \<Rightarrow> int \<Rightarrow> error + store" where
  "first_published_body s feed_id =
     (case get_by_pk s feed_id of
        Inl er \<Rightarrow> Inl er
      | Inr f \<Rightarrow>
          (if dt_first_story_published f \<noteq> None then Inr s
           else if total_storys f \<le> 0 then Inr s
           else
             (case get_by_offset s feed_id 0 of
                Inl er \<Rightarrow> Inr (s\<lparr>warnings := warnings s @ [StoryNotExists feed_id]\<rparr>)
              | Inr st \<Rightarrow> Inr (save_feed s (f\<lparr>dt_first_story_published := dt_published st\<rparr>)))))"

definition update_feed_dt_first_story_published ::
    "env \<Rightarrow> store \<Rightarrow> string option \<Rightarrow> store \<times> error option" where
  "update_feed_dt_first_story_published e s option_feeds =
     (case get_feed_ids e s option_feeds of
        Inl er \<Rightarrow> (s, Some er)
      | Inr feed_ids \<Rightarrow> batch first_published_body s feed_ids)"

subsection \<open>update_story_has_mathjax\<close>

definition has_mathjax_body :: "env \<Rightarrow> store \<Rightarrow> pk_arg \<Rightarrow> error + store" where
  "has_mathjax_body e s story_id =
     (case get_story e s story_id of
        Inl er \<Rightarrow> Inl er
      | Inr st \<Rightarrow>
          (if story_has_mathjax e (content st)
           then Inr (save_story_mathjax s (st\<lparr>has_mathjax := True\<rparr>))
           else Inr s))"

definition update_story_has_mathjax ::
    "env \<Rightarrow> store \<Rightarrow> string option \<Rightarrow> store \<times> error option" where
  "update_story_has_mathjax e s option_storys =
     batch (has_mathjax_body e) s (get_story_ids e s option_storys)"

text \<open>
  What a run of \<^verbatim>\<open>update_story_has_mathjax\<close> may change: \<open>has_mathjax\<close> becomes true
  on stories whose content has math notation, each write is a save of \<open>True\<close>, and
  nothing else changes.
\<close>

definition marked :: "env \<Rightarrow> store \<Rightarrow> store \<Rightarrow> bool" where
  "marked e s s' =
     (\<exists>W ws. storys s' = map (\<lambda>r. if story_pk r \<in> W then r\<lparr>has_mathjax := True\<rparr> else r) (storys s) \<and>
        (\<forall>r \<in> set (storys s). story_pk r \<in> W \<longrightarrow> story_has_mathjax e (content r)) \<and>
        writes s' = writes s @ ws \<and>
        (\<forall>w \<in> set ws. \<exists>k c. w = SaveStory k c True \<and> story_has_mathjax e c) \<and>
        feeds s' = feeds s \<and> userstorys s' = userstorys s \<and> warnings s' = warnings s)"

subsection \<open>update_feed_use_proxy\<close>

text \<open>
  The feed reader is the network: \<open>net n u p\<close> is the status that the \<open>n\<close>-th read of
  the run returns for the url \<open>u\<close>, with the proxy when \<open>p\<close> holds. A probe records what
  the loop prints for one feed: the feed, the status without proxy and, when a second
  read was made, the status with proxy.
\<close>

record probe =
  p_feed :: feed
  p_status :: int
  p_proxy_status :: "int option"

fun probe_loop ::
    "env \<Rightarrow> (nat \<Rightarrow> string \<Rightarrow> bool \<Rightarrow> int) \<Rightarrow> nat \<Rightarrow> feed list \<Rightarrow> feed list \<Rightarrow> probe list \<Rightarrow>
     feed list \<times> probe list" where
  "probe_loop e net n [] proxy_feeds probes = (proxy_feeds, probes)"
| "probe_loop e net n (f # fs) proxy_feeds probes =
     (let status = net n (url f) False in
      if is_need_proxy e status
      then
        (let proxy_status = net (n + 1) (url f) True in
         probe_loop e net (n + 2) fs
           (if proxy_status = 200 then proxy_feeds @ [f] else proxy_feeds)
           (probes @ [\<lparr>p_feed = f, p_status = status, p_proxy_status = Some proxy_status\<rparr>]))
      else
        probe_loop e net (n + 1) fs proxy_feeds
          (probes @ [\<lparr>p_feed = f, p_status = status, p_proxy_status = None\<rparr>]))"

text \<open>
  The transaction at the end: each feed object is read again from its row, its flag is
  set and it is saved. An exception rolls all of it back.
\<close>

fun mark_loop :: "store \<Rightarrow> feed list \<Rightarrow> error + store" where
  "mark_loop s [] = Inr s"
| "mark_loop s (f # proxy_feeds) =
     (case refresh_from_db s f of
        Inl er \<Rightarrow> Inl er
      | Inr f1 \<Rightarrow> mark_loop (save_feed s (f1\<lparr>use_proxy := True\<rparr>)) proxy_feeds)"

record proxy_run =
  run_store :: store
  run_proxy_feeds :: "feed list"
  run_probes :: "probe list"
  run_error :: "error option"

definition update_feed_use_proxy ::
    "env \<Rightarrow> (nat \<Rightarrow> string \<Rightarrow> bool \<Rightarrow> int) \<Rightarrow> store \<Rightarrow> proxy_run" where
  "update_feed_use_proxy e net s =
     (if \<not> rss_proxy_enable e
      then \<lparr>run_store = s, run_proxy_feeds = [], run_probes = [], run_error = None\<rparr>
      else
        (case probe_loop e net 0 (filter (need_check e) (feeds s)) [] [] of
           (proxy_feeds, probes) \<Rightarrow>
             (if proxy_feeds \<noteq> []
              then
                (case mark_loop s proxy_feeds of
                   Inl er \<Rightarrow>
                     \<lparr>run_store = s, run_proxy_feeds = proxy_feeds, run_probes = probes,
                      run_error = Some er\<rparr>
                 | Inr s' \<Rightarrow>
                     \<lparr>run_store = s', run_proxy_feeds = proxy_feeds, run_probes = probes,
                      run_error = None\<rparr>)
              else
                \<lparr>run_store = s, run_proxy_feeds = proxy_feeds, run_probes = probes,
                 run_error = None\<rparr>)))"

text \<open>The feed table with the proxy flag set on the rows whose keys are in \<open>W\<close>.\<close>

definition flagged :: "int set \<Rightarrow> feed list \<Rightarrow> feed list" where
  "flagged W tbl = map (\<lambda>r. if feed_pk r \<in> W then r\<lparr>use_proxy := True\<rparr> else r) tbl"

text \<open>The probes of a run that put their feed on the list.\<close>

definition promoted :: "env \<Rightarrow> probe \<Rightarrow> bool" where
  "promoted e p = (is_need_proxy e (p_status p) \<and> p_proxy_status p = Some 200)"

subsection \<open>refresh_feed\<close>










subsection \<open>Python floating-point arithmetic\<close>

text \<open>
  \<^verbatim>\<open>round((error_count / total) * 100)\<close> is computed in binary64 floating point: the
  quotient of two integers is the double nearest to the exact quotient, its product
  with 100 is the double nearest to the exact product, both with ties to the even
  mantissa, and \<^verbatim>\<open>round\<close> gives the integer nearest to that double, ties to the even
  integer. A finite double is a pair \<open>(m, x)\<close> that stands for \<open>m * 2 ^ x\<close>, with a
  mantissa of at most 53 bits and \<open>x \<ge> - 1074\<close>. A quotient that is too large for a
  double raises OverflowError; a product that is too large is infinite, and rounding
  it raises OverflowError.
\<close>

function bit_length :: "int \<Rightarrow> nat" where
  "bit_length n = (if n \<le> 0 then 0 else Suc (bit_length (n div 2)))"
  by pat_completeness auto
termination
  by (relation "measure nat") auto

declare bit_length.simps [simp del]

text \<open>The integer nearest to \<open>p / q\<close> for \<open>q > 0\<close>, ties to the even integer.\<close>

definition round_half_even :: "int \<Rightarrow> int \<Rightarrow> int" where
  "round_half_even p q =
     (let f = p div q; r = p mod q in
      if 2 * r < q then f
      else if q < 2 * r then f + 1
      else if even f then f else f + 1)"

type_synonym float = "int \<times> int"

text \<open>
  The double nearest to \<open>p / q\<close> for \<open>q > 0\<close>: with \<open>e\<close> the binary exponent of the
  quotient, the quotient is rounded to a multiple of \<open>2 ^ (e - 52)\<close>, or of
  \<open>2 ^ - 1074\<close> in the subnormal range.
\<close>

definition float_round :: "int \<Rightarrow> int \<Rightarrow> float" where
  "float_round p q =
     (if p = 0 then (0, 0)
      else
        (let e0 = int (bit_length \<bar>p\<bar>) - int (bit_length q);
             e = (if (if 0 \<le> e0 then q * 2 ^ nat e0 \<le> \<bar>p\<bar> else q \<le> \<bar>p\<bar> * 2 ^ nat (- e0))
                  then e0 else e0 - 1);
             x = max (e - 52) (- 1074)
         in (if 0 \<le> x then round_half_even p (q * 2 ^ nat x)
             else round_half_even (p * 2 ^ nat (- x)) q, x)))"

definition is_finite :: "float \<Rightarrow> bool" where
  "is_finite a = (case a of (m, x) \<Rightarrow> x < 0 \<or> \<bar>m\<bar> * 2 ^ nat x < 2 ^ 1024)"

definition py_truediv :: "int \<Rightarrow> int \<Rightarrow> error + float" where
  "py_truediv a b =
     (if b = 0 then Inl ZeroDivisionError
      else
        (let r = (if 0 < b then float_round a b else float_round (- a) (- b)) in
         if is_finite r then Inr r else Inl OverflowError))"

definition float_times :: "float \<Rightarrow> int \<Rightarrow> float" where
  "float_times a k =
     (case a of (m, x) \<Rightarrow>
        if 0 \<le> x then float_round (m * k * 2 ^ nat x) 1
        else float_round (m * k) (2 ^ nat (- x)))"

definition py_round :: "float \<Rightarrow> error + int" where
  "py_round a =
     (if \<not> is_finite a then Inl OverflowError
      else (case a of (m, x) \<Rightarrow>
        Inr (if 0 \<le> x then m * 2 ^ nat x else round_half_even m (2 ^ nat (- x)))))"

subsection \<open>delete_invalid_feeds\<close>

text \<open>\<^verbatim>\<open>round((feed['error_count'] / total) * 100)\<close>; \<open>n\<close> is the total.\<close>

definition error_percent_of :: "int \<Rightarrow> int \<Rightarrow> error + int" where
  "error_percent_of error_count n =
     (case py_truediv error_count n of
        Inl er \<Rightarrow> Inl er
      | Inr q \<Rightarrow> py_round (float_times q 100))"

text \<open>
  The rows of the two cursors are inputs of the command: the error report gives
  (feed_id, title, link, url, status_code, count) per feed and failing status with more
  than three fetches in the window, the second query (feed_id, count) per listed feed
  that has successful fetches in the window.
\<close>

record error_row =
  er_feed_id :: int
  er_title :: string
  er_link :: string
  er_url :: string
  er_status_code :: int
  er_count :: int

text \<open>
  The dictionary the command keeps per feed. \<open>ef_error\<close> is the inner dictionary from
  status name to count; a dictionary is an association list in insertion order, and
  \<open>AList.update\<close> is the assignment \<^verbatim>\<open>d[k] = v\<close>.
\<close>

record error_feed =
  ef_feed_id :: int
  ef_title :: string
  ef_link :: string
  ef_url :: string
  ef_error :: "(string \<times> int) list"
  ef_error_count :: int
  ef_ok_count :: int
  ef_error_percent :: int

definition add_error_row ::
    "env \<Rightarrow> (int \<times> error_feed) list \<Rightarrow> error_row \<Rightarrow> (int \<times> error_feed) list" where
  "add_error_row e error_feeds row =
     (let error = (case map_of error_feeds (er_feed_id row) of
                     None \<Rightarrow> []
                   | Some feed \<Rightarrow> ef_error feed);
          error' = AList.update (name_of e (er_status_code row)) (er_count row) error
      in AList.update (er_feed_id row)
           \<lparr>ef_feed_id = er_feed_id row, ef_title = er_title row, ef_link = er_link row,
            ef_url = er_url row, ef_error = error',
            ef_error_count = sum_list (map snd error'),
            ef_ok_count = 0, ef_error_percent = 100\<rparr>
           error_feeds)"

text \<open>
  The second loop. The feed of an unknown id is a fresh empty dictionary of the
  \<^verbatim>\<open>defaultdict\<close>, and reading its \<^verbatim>\<open>'error_count'\<close> raises KeyError.
\<close>

definition add_ok_row ::
    "(int \<times> error_feed) list \<Rightarrow> int \<times> int \<Rightarrow> error + (int \<times> error_feed) list" where
  "add_ok_row error_feeds row =
     (case row of (feed_id, ok_count) \<Rightarrow>
        (case map_of error_feeds feed_id of
           None \<Rightarrow> Inl KeyError
         | Some feed \<Rightarrow>
             (case error_percent_of (ef_error_count feed) (ef_error_count feed + ok_count) of
                Inl er \<Rightarrow> Inl er
              | Inr error_percent \<Rightarrow>
                  Inr (AList.update feed_id
                         (feed\<lparr>ef_ok_count := ok_count, ef_error_percent := error_percent\<rparr>)
                         error_feeds))))"

fun ok_loop ::
    "(int \<times> error_feed) list \<Rightarrow> (int \<times> int) list \<Rightarrow> error + (int \<times> error_feed) list" where
  "ok_loop error_feeds [] = Inr error_feeds"
| "ok_loop error_feeds (row # rows) =
     (case add_ok_row error_feeds row of
        Inl er \<Rightarrow> Inl er
      | Inr error_feeds' \<Rightarrow> ok_loop error_feeds' rows)"

text \<open>What the command prints, asks and does after the report is built.\<close>

datatype event =
    EchoFeed error_feed
  | Confirm nat
  | EchoAbort
  | BulkDelete "int list"
  | EchoDone

fun propose ::
    "int \<Rightarrow> error_feed list \<Rightarrow> int list \<Rightarrow> event list \<Rightarrow> int list \<times> event list" where
  "propose threshold [] delete_feed_ids out = (delete_feed_ids, out)"
| "propose threshold (f # fs) delete_feed_ids out =
     (if threshold \<le> ef_error_percent f
      then propose threshold fs (delete_feed_ids @ [ef_feed_id f]) (out @ [EchoFeed f])
      else propose threshold fs delete_feed_ids out)"

record delete_run =
  dr_error_feeds :: "error_feed list"
  dr_delete_feed_ids :: "int list"
  dr_events :: "event list"

text \<open>
  \<open>confirm\<close> is the operator's answer to the confirmation, asked only when a feed is
  proposed. \<^verbatim>\<open>sorted(..., reverse=True)\<close> is stable, as \<open>sort_key\<close> on the negated key is.
\<close>

definition delete_invalid_feeds ::
    "env \<Rightarrow> error_row list \<Rightarrow> (int \<times> int) list \<Rightarrow> int \<Rightarrow> bool \<Rightarrow> error + delete_run" where
  "delete_invalid_feeds e error_rows ok_rows threshold confirm =
     (case ok_loop (foldl (add_error_row e) [] error_rows) ok_rows of
        Inl er \<Rightarrow> Inl er
      | Inr d \<Rightarrow>
          (let error_feeds = sort_key (\<lambda>x. - ef_error_percent x) (map snd d) in
           case propose threshold error_feeds [] [] of
             (delete_feed_ids, out) \<Rightarrow>
               Inr \<lparr>dr_error_feeds = error_feeds,
                    dr_delete_feed_ids = delete_feed_ids,
                    dr_events =
                      out @
                      (if delete_feed_ids \<noteq> []
                       then Confirm (length delete_feed_ids) #
                              (if \<not> confirm then [EchoAbort]
                               else [BulkDelete delete_feed_ids, EchoDone])
                       else [])\<rparr>))"

text \<open>The guarantee of the error report's \<^verbatim>\<open>having count(1) > 3\<close> that the proofs use.\<close>

definition counts_positive :: "error_row list \<Rightarrow> bool" where
  "counts_positive error_rows = list_all (\<lambda>row. 0 < er_count row) error_rows"

subsection \<open>Properties of the report of delete_invalid_feeds\<close>

text \<open>
  The guarantee of the second query: it is restricted to the feeds of the report by
  \<^verbatim>\<open>feed_id=ANY(...)\<close>, and a count is not negative.
\<close>

definition ok_rows_listed :: "error_row list \<Rightarrow> (int \<times> int) list \<Rightarrow> bool" where
  "ok_rows_listed error_rows ok_rows =
     list_all (\<lambda>row. fst row \<in> set (map er_feed_id error_rows) \<and> 0 \<le> snd row) ok_rows"

text \<open>
  The report is keyed by feed id. After the first loop every feed has its errors, their
  sum and the defaults; during the second loop every feed has the percentage of its
  counts.
\<close>

definition keyed_report :: "(int \<times> error_feed) list \<Rightarrow> bool" where
  "keyed_report d =
     (distinct (map fst d) \<and> (\<forall>k f. map_of d k = Some f \<longrightarrow> ef_feed_id f = k))"

definition fresh_report :: "(int \<times> error_feed) list \<Rightarrow> bool" where
  "fresh_report d =
     (distinct (map fst d) \<and>
      (\<forall>k f. map_of d k = Some f \<longrightarrow>
         ef_feed_id f = k \<and> ef_error f \<noteq> [] \<and> (\<forall>c \<in> snd ` set (ef_error f). 0 < c) \<and>
         ef_error_count f = sum_list (map snd (ef_error f)) \<and>
         ef_ok_count f = 0 \<and> ef_error_percent f = 100))"

definition rated_report :: "(int \<times> error_feed) list \<Rightarrow> bool" where
  "rated_report d =
     (distinct (map fst d) \<and>
      (\<forall>k f. map_of d k = Some f \<longrightarrow>
         ef_feed_id f = k \<and> 0 < ef_error_count f \<and>
         error_percent_of (ef_error_count f) (ef_error_count f + ef_ok_count f) =
           Inr (ef_error_percent f)))"

subsection \<open>Concrete inputs\<close>

text \<open>
  An environment to run the commands on concrete inputs: \<^verbatim>\<open>int\<close> on unsigned decimal
  digit strings, a codec that decodes a digit string \<open>n\<close> to (0, n), a detector that
  knows one formula, and simple stand-ins for the status classification.
\<close>

definition demo_int :: "string \<Rightarrow> int option" where
  "demo_int x =
     (if x \<noteq> [] \<and> list_all (\<lambda>c. 48 \<le> (of_char c :: nat) \<and> (of_char c :: nat) \<le> 57) x
      then Some (int (foldl (\<lambda>a c. 10 * a + (of_char c - 48)) 0 x))
      else None)"

definition demo_env :: env where
  "demo_env =
     \<lparr>str_strip = (\<lambda>x. x),
      int_of_str = demo_int,
      unionid_decode = (\<lambda>x. case demo_int x of None \<Rightarrow> None | Some n \<Rightarrow> Some [0, n]),
      story_has_mathjax = (\<lambda>c. c = ''$x$''),
      msc_dryness = (\<lambda>h. int (length h)),
      month_of = (\<lambda>t. t div 100),
      name_of = (\<lambda>c. if c = 404 then ''HTTP_404'' else ''OTHER''),
      is_need_proxy = (\<lambda>c. c < 0),
      rss_proxy_enable = True,
      need_check = (\<lambda>f. total_storys f \<le> 5)\<rparr>"

text \<open>
  Two stories: the first has math notation and no flag yet, the second holds the flag
  although its content has no math notation.
\<close>

definition mj_store :: store where
  "mj_store =
     \<lparr>feeds = [],
      storys =
        [\<lparr>story_pk = 1, story_feed_id = 1, story_offset = 0, content = ''$x$'',
          dt_published = None, has_mathjax = False\<rparr>,
         \<lparr>story_pk = 2, story_feed_id = 1, story_offset = 1, content = ''plain'',
          dt_published = None, has_mathjax = True\<rparr>],
      userstorys = [], writes = [], warnings = []\<rparr>"

text \<open>
  Three feeds: the first has its first-published timestamp, the second counts three
  stories but has none at offset 0, the third has its story at offset 0.
\<close>

definition backfill_store :: store where
  "backfill_store =
     \<lparr>feeds =
        [\<lparr>feed_pk = 1, url = ''http://a'', title = ''a'', total_storys = 2,
          monthly_story_count = [], dryness = 0, dt_first_story_published = Some 20190101,
          use_proxy = False\<rparr>,
         \<lparr>feed_pk = 2, url = ''http://b'', title = ''b'', total_storys = 3,
          monthly_story_count = [], dryness = 0, dt_first_story_published = None,
          use_proxy = False\<rparr>,
         \<lparr>feed_pk = 3, url = ''http://c'', title = ''c'', total_storys = 1,
          monthly_story_count = [], dryness = 0, dt_first_story_published = None,
          use_proxy = False\<rparr>],
      storys =
        [\<lparr>story_pk = 10, story_feed_id = 2, story_offset = 1, content = [],
          dt_published = Some 20200202, has_mathjax = False\<rparr>,
         \<lparr>story_pk = 11, story_feed_id = 3, story_offset = 0, content = [],
          dt_published = Some 20200105, has_mathjax = False\<rparr>],
      userstorys = [], writes = [], warnings = []\<rparr>"

text \<open>
  A feed without drift: one story, published in month 2020 of the stand-in calendar;
  the stored count, histogram, dryness and first-published timestamp are what a
  recomputation gives.
\<close>

definition dry_feed :: feed where
  "dry_feed =
     \<lparr>feed_pk = 1, url = ''http://a'', title = ''a'', total_storys = 1,
      monthly_story_count = [(2020, 1)], dryness = 1,
      dt_first_story_published = Some 202001, use_proxy = False\<rparr>"

definition dry_store :: store where
  "dry_store =
     \<lparr>feeds = [dry_feed],
      storys =
        [\<lparr>story_pk = 20, story_feed_id = 1, story_offset = 0, content = [],
          dt_published = Some 202001, has_mathjax = False\<rparr>],
      userstorys = [], writes = [], warnings = []\<rparr>"

text \<open>
  The store of \<open>dry_store\<close> with a second feed that has drift: it counts four
  stories and owns none.
\<close>

definition drift_store :: store where
  "drift_store =
     \<lparr>feeds =
        [dry_feed,
         \<lparr>feed_pk = 2, url = ''http://b'', title = ''b'', total_storys = 4,
          monthly_story_count = [], dryness = 0, dt_first_story_published = None,
          use_proxy = False\<rparr>],
      storys =
        [\<lparr>story_pk = 20, story_feed_id = 1, story_offset = 0, content = [],
          dt_published = Some 202001, has_mathjax = False\<rparr>],
      userstorys = [], writes = [], warnings = []\<rparr>"

text \<open>
  Four feeds, the first three selected by the stand-in filter. The network of
  \<open>demo_net\<close> refuses feeds 1 and 3 without proxy; with proxy it answers 200 for
  feed 1 and 502 for feed 3. Feed 2 answers 200 directly and already has its flag.
\<close>

definition proxy_store :: store where
  "proxy_store =
     \<lparr>feeds =
        [\<lparr>feed_pk = 1, url = ''http://a'', title = ''a'', total_storys = 2,
          monthly_story_count = [], dryness = 0, dt_first_story_published = None,
          use_proxy = False\<rparr>,
         \<lparr>feed_pk = 2, url = ''http://b'', title = ''b'', total_storys = 3,
          monthly_story_count = [], dryness = 0, dt_first_story_published = None,
          use_proxy = True\<rparr>,
         \<lparr>feed_pk = 3, url = ''http://c'', title = ''c'', total_storys = 1,
          monthly_story_count = [], dryness = 0, dt_first_story_published = None,
          use_proxy = False\<rparr>,
         \<lparr>feed_pk = 4, url = ''http://d'', title = ''d'', total_storys = 9,
          monthly_story_count = [], dryness = 0, dt_first_story_published = None,
          use_proxy = False\<rparr>],
      storys = [], userstorys = [], writes = [], warnings = []\<rparr>"

definition demo_net :: "nat \<Rightarrow> string \<Rightarrow> bool \<Rightarrow> int" where
  "demo_net n u p =
     (if u = ''http://a'' then (if p then 200 else - 1)
      else if u = ''http://b'' then 200
      else if u = ''http://c'' then (if p then 502 else - 1)
      else 200)"

text \<open>
  An error report of three feeds: 99 failures with two statuses for feed 1, 10 for
  feed 2, 98 for feed 3; feed 1 has one successful fetch, feed 3 two, feed 2 none.
\<close>

definition report_rows :: "error_row list" where
  "report_rows =
     [\<lparr>er_feed_id = 1, er_title = ''a'', er_link = ''http://a'', er_url = ''http://a/feed'',
       er_status_code = 404, er_count = 60\<rparr>,
      \<lparr>er_feed_id = 1, er_title = ''a'', er_link = ''http://a'', er_url = ''http://a/feed'',
       er_status_code = 500, er_count = 39\<rparr>,
      \<lparr>er_feed_id = 2, er_title = ''b'', er_link = ''http://b'', er_url = ''http://b/feed'',
       er_status_code = 404, er_count = 10\<rparr>,
      \<lparr>er_feed_id = 3, er_title = ''c'', er_link = ''http://c'', er_url = ''http://c/feed'',
       er_status_code = 404, er_count = 98\<rparr>]"

definition report_ok_rows :: "(int \<times> int) list" where
  "report_ok_rows = [(1, 1), (3, 2)]"

section \<open>Theorems\<close>

subsection \<open>fix_user_story_offset: Phase A\<close>

text \<open>
  Negating the offsets of any set of rows keeps the (user, feed, offset) keys distinct
  when no offset is negative: two rows of one user and feed hold different offsets, and
  offsets of different absolute value stay different whatever their signs.
\<close>

lemma unique_negated:
  assumes u: "unique_user_feed_offset tbl" and n: "offsets_nonneg tbl"
  shows "unique_user_feed_offset (negated S tbl)"
proof -
  let ?k = "\<lambda>r. (us_user_id r, us_feed_id r, us_offset r)"
  let ?g = "\<lambda>r. if us_pk r \<in> S then r\<lparr>us_offset := - us_offset r\<rparr> else r"
  from u have d: "distinct tbl" and i: "inj_on ?k (set tbl)"
    by (auto simp: unique_user_feed_offset_def distinct_map)
  from n have nn: "\<And>r. r \<in> set tbl \<Longrightarrow> 0 \<le> us_offset r"
    by (simp add: offsets_nonneg_def list_all_iff)
  have "inj_on (?k \<circ> ?g) (set tbl)"
  proof (rule inj_onI)
    fix r r' assume r: "r \<in> set tbl" and r': "r' \<in> set tbl"
      and e: "(?k \<circ> ?g) r = (?k \<circ> ?g) r'"
    from nn [OF r] nn [OF r'] e have "?k r = ?k r'"
      by (auto split: if_splits)
    with i r r' show "r = r'" by (auto dest: inj_onD)
  qed
  with d have "distinct (map (?k \<circ> ?g) tbl)"
    by (simp add: distinct_map)
  then show ?thesis
    by (simp add: unique_user_feed_offset_def negated_def comp_def)
qed

lemma update_offset_Inr:
  assumes "unique_user_feed_offset
     (map (\<lambda>r. if us_pk r = pk then r\<lparr>us_offset := v\<rparr> else r) (userstorys s))"
  shows "update_offset s pk v =
     Inr (s\<lparr>userstorys := map (\<lambda>r. if us_pk r = pk then r\<lparr>us_offset := v\<rparr> else r) (userstorys s),
            writes := writes s @ [UpdateOffset pk v]\<rparr>)"
proof -
  let ?k = "\<lambda>r. (us_user_id r, us_feed_id r, us_offset r)"
  let ?g = "\<lambda>r. if us_pk r = pk then r\<lparr>us_offset := v\<rparr> else r"
  have "\<not> (\<exists>r \<in> set (userstorys s). us_pk r = pk \<and>
          (\<exists>r' \<in> set (userstorys s). us_pk r' \<noteq> pk \<and> us_user_id r' = us_user_id r \<and>
             us_feed_id r' = us_feed_id r \<and> us_offset r' = v))"
  proof
    assume "\<exists>r \<in> set (userstorys s). us_pk r = pk \<and>
          (\<exists>r' \<in> set (userstorys s). us_pk r' \<noteq> pk \<and> us_user_id r' = us_user_id r \<and>
             us_feed_id r' = us_feed_id r \<and> us_offset r' = v)"
    then obtain r r' where r: "r \<in> set (userstorys s)" "us_pk r = pk"
      and r': "r' \<in> set (userstorys s)" "us_pk r' \<noteq> pk" "us_user_id r' = us_user_id r"
        "us_feed_id r' = us_feed_id r" "us_offset r' = v"
      by blast
    from assms have "inj_on ?k (set (map ?g (userstorys s)))"
      unfolding unique_user_feed_offset_def distinct_map by blast
    then have i: "inj_on ?k (?g ` set (userstorys s))"
      by (simp only: set_map)
    have a: "?g r \<in> ?g ` set (userstorys s)" and b: "?g r' \<in> ?g ` set (userstorys s)"
      using r r' by blast+
    have e: "?k (?g r) = ?k (?g r')" using r r' by simp
    have "?g r = ?g r'" by (rule inj_onD [OF i e a b])
    then have "us_pk (?g r) = us_pk (?g r')" by (rule arg_cong)
    with r r' show False by simp
  qed
  then show ?thesis
    by (simp add: update_offset_def list_ex_iff)
qed

lemma negated_step:
  assumes "\<forall>r \<in> set tbl. us_pk r = i \<longrightarrow> us_offset r = off"
  shows "map (\<lambda>r. if us_pk r = i then r\<lparr>us_offset := - off\<rparr> else r) (negated S tbl) =
         negated (insert i S) tbl"
  using assms by (auto simp: negated_def)

lemma phase_a_negated:
  assumes "unique_user_feed_offset tbl" "offsets_nonneg tbl"
    and "\<forall>(i, off, t) \<in> set items. \<forall>r \<in> set tbl. us_pk r = i \<longrightarrow> us_offset r = off"
    and "userstorys s = negated S tbl"
  shows "\<exists>s'. phase_a s items = Inr s' \<and> userstorys s' = negated (S \<union> fst ` set items) tbl
            \<and> storys s' = storys s \<and> feeds s' = feeds s
            \<and> writes s' = writes s @ map (\<lambda>(i, off, t). UpdateOffset i (- off)) items"
  using assms(3,4)
proof (induction items arbitrary: s S)
  case Nil
  then show ?case by simp
next
  case (Cons it items)
  obtain i off t where it: "it = (i, off, t)" by (cases it)
  from Cons.prems it have row: "\<forall>r \<in> set tbl. us_pk r = i \<longrightarrow> us_offset r = off"
    by auto
  let ?s1 = "s\<lparr>userstorys := negated (insert i S) tbl, writes := writes s @ [UpdateOffset i (- off)]\<rparr>"
  have "update_offset s i (- off) = Inr ?s1"
    using update_offset_Inr [of i "- off" s] unique_negated [OF assms(1,2), of "insert i S"]
      negated_step [OF row, of S] Cons.prems(2)
    by simp
  moreover have "\<exists>s'. phase_a ?s1 items = Inr s' \<and>
      userstorys s' = negated (insert i S \<union> fst ` set items) tbl
      \<and> storys s' = storys ?s1 \<and> feeds s' = feeds ?s1
      \<and> writes s' = writes ?s1 @ map (\<lambda>(i, off, t). UpdateOffset i (- off)) items"
    using Cons.prems by (intro Cons.IH) auto
  ultimately show ?case
    using it by auto
qed

lemma sql_mismatch_row:
  assumes "(i, off, t) \<in> set (sql_mismatch s)"
  shows "\<exists>us \<in> set (userstorys s). us_pk us = i \<and> us_offset us = off"
  using assms by (auto simp: sql_mismatch_def)

lemma sql_mismatch_offset:
  assumes pk: "distinct (map us_pk (userstorys s))"
    and it: "(i, off, t) \<in> set (sql_mismatch s)"
    and r: "r \<in> set (userstorys s)" "us_pk r = i"
  shows "us_offset r = off"
proof -
  from sql_mismatch_row [OF it] obtain us where
    us: "us \<in> set (userstorys s)" "us_pk us = i" "us_offset us = off" by blast
  from pk have "inj_on us_pk (set (userstorys s))" by (simp add: distinct_map)
  with us r have "us = r" by (auto dest: inj_onD)
  with us show ?thesis by simp
qed

text \<open>
  Claim C2. Given a table whose primary keys are distinct, that satisfies the
  (user, feed, offset) constraint and holds no negative offset, Phase A never reaches
  the constraint violation: every prefix of the Phase A loop over the mismatch snapshot
  succeeds and leaves a table that satisfies the constraint. For a listed row and any
  other row of the same user and feed, the negated offset written for the listed row
  differs from the negated offset written for the other row when that one is listed
  too, and from the offset the other row holds when it is outside the snapshot.
\<close>

theorem phase_a_collision_free:
  assumes pk: "distinct (map us_pk (userstorys s))"
    and uq: "unique_user_feed_offset (userstorys s)"
    and nn: "offsets_nonneg (userstorys s)"
  shows "(\<forall>n \<le> length (sql_mismatch s). \<exists>s'.
            phase_a s (take n (sql_mismatch s)) = Inr s' \<and>
            unique_user_feed_offset (userstorys s')) \<and>
         (\<forall>(i, off, t) \<in> set (sql_mismatch s). \<forall>r \<in> set (userstorys s).
            \<forall>r' \<in> set (userstorys s). us_pk r = i \<and> us_pk r' \<noteq> i \<and> same_scope r r' \<longrightarrow>
              (\<forall>(i', off', t') \<in> set (sql_mismatch s). us_pk r' = i' \<longrightarrow> - off \<noteq> - off') \<and>
              (us_pk r' \<notin> fst ` set (sql_mismatch s) \<longrightarrow> - off \<noteq> us_offset r'))"
proof (intro conjI allI impI)
  fix n assume "n \<le> length (sql_mismatch s)"
  have "\<forall>(i, off, t) \<in> set (take n (sql_mismatch s)).
          \<forall>r \<in> set (userstorys s). us_pk r = i \<longrightarrow> us_offset r = off"
    using sql_mismatch_offset [OF pk] by (auto dest: in_set_takeD)
  moreover have "userstorys s = negated {} (userstorys s)"
    by (simp add: negated_def)
  ultimately obtain s' where "phase_a s (take n (sql_mismatch s)) = Inr s'"
    "userstorys s' = negated ({} \<union> fst ` set (take n (sql_mismatch s))) (userstorys s)"
    using phase_a_negated [OF uq nn, of "take n (sql_mismatch s)" s "{}"] by blast
  then show "\<exists>s'. phase_a s (take n (sql_mismatch s)) = Inr s' \<and>
                 unique_user_feed_offset (userstorys s')"
    using unique_negated [OF uq nn] by simp
next
  from uq have inj: "inj_on (\<lambda>r. (us_user_id r, us_feed_id r, us_offset r)) (set (userstorys s))"
    by (simp add: unique_user_feed_offset_def distinct_map)
  from nn have nonneg: "\<And>r. r \<in> set (userstorys s) \<Longrightarrow> 0 \<le> us_offset r"
    by (simp add: offsets_nonneg_def list_all_iff)
  have key: "(\<forall>(i', off', t') \<in> set (sql_mismatch s). us_pk r' = i' \<longrightarrow> - off \<noteq> - off') \<and>
          (us_pk r' \<notin> fst ` set (sql_mismatch s) \<longrightarrow> - off \<noteq> us_offset r')"
    if it: "(i, off, t) \<in> set (sql_mismatch s)"
      and r: "r \<in> set (userstorys s)" and r': "r' \<in> set (userstorys s)"
      and i: "us_pk r = i" and pkr: "us_pk r' \<noteq> i" and sc: "same_scope r r'"
    for i off t r r'
  proof -
    have off: "us_offset r = off"
      using sql_mismatch_offset [OF pk it r] i by simp
    have ne: "us_offset r \<noteq> us_offset r'"
    proof
      assume "us_offset r = us_offset r'"
      with sc have "(us_user_id r, us_feed_id r, us_offset r) =
                    (us_user_id r', us_feed_id r', us_offset r')"
        by (simp add: same_scope_def)
      with inj r r' have "r = r'" by (auto dest: inj_onD)
      with pkr i show False by simp
    qed
    have "- off \<noteq> - off'" if it': "(us_pk r', off', t') \<in> set (sql_mismatch s)" for off' t'
      using sql_mismatch_offset [OF pk it' r'] off ne by simp
    then have "\<forall>(i', off', t') \<in> set (sql_mismatch s). us_pk r' = i' \<longrightarrow> - off \<noteq> - off'"
      by blast
    moreover have "- off \<noteq> us_offset r'"
      using nonneg [OF r] nonneg [OF r'] off ne by arith
    ultimately show ?thesis
      by blast
  qed
  show "\<forall>(i, off, t) \<in> set (sql_mismatch s). \<forall>r \<in> set (userstorys s).
            \<forall>r' \<in> set (userstorys s). us_pk r = i \<and> us_pk r' \<noteq> i \<and> same_scope r r' \<longrightarrow>
              (\<forall>(i', off', t') \<in> set (sql_mismatch s). us_pk r' = i' \<longrightarrow> - off \<noteq> - off') \<and>
              (us_pk r' \<notin> fst ` set (sql_mismatch s) \<longrightarrow> - off \<noteq> us_offset r')"
    using key by (intro ballI) (clarify, blast)
qed

lemma swap_pk: "distinct (map us_pk (userstorys swap_store))"
  by (simp add: swap_store_def)

lemma swap_unique: "unique_user_feed_offset (userstorys swap_store)"
  by (simp add: swap_store_def unique_user_feed_offset_def)

lemma swap_nonneg: "offsets_nonneg (userstorys swap_store)"
  by (simp add: swap_store_def offsets_nonneg_def)

text \<open>The witness: Phase A on \<open>swap_store\<close>, where one listed row holds offset 0.\<close>

theorem phase_a_collision_free_witness:
  "distinct (map us_pk (userstorys swap_store)) \<and>
   unique_user_feed_offset (userstorys swap_store) \<and>
   offsets_nonneg (userstorys swap_store) \<and>
   length (sql_mismatch swap_store) = 2 \<and>
   (\<exists>s'. phase_a swap_store (sql_mismatch swap_store) = Inr s' \<and>
      unique_user_feed_offset (userstorys s'))"
proof -
  have len: "length (sql_mismatch swap_store) = 2"
    by (simp add: sql_mismatch_def swap_store_def)
  have "\<forall>n \<le> length (sql_mismatch swap_store). \<exists>s'.
            phase_a swap_store (take n (sql_mismatch swap_store)) = Inr s' \<and>
            unique_user_feed_offset (userstorys s')"
    using phase_a_collision_free [OF swap_pk swap_unique swap_nonneg] by blast
  then have "\<exists>s'. phase_a swap_store (take (length (sql_mismatch swap_store))
               (sql_mismatch swap_store)) = Inr s' \<and>
            unique_user_feed_offset (userstorys s')"
    by blast
  then have "\<exists>s'. phase_a swap_store (sql_mismatch swap_store) = Inr s' \<and>
            unique_user_feed_offset (userstorys s')"
    by simp
  then show ?thesis
    using len swap_pk swap_unique swap_nonneg by simp
qed

text \<open>
  Claim C1, at a failing input. Offsets are zero-based and \<open>- 0 = 0\<close>, so Phase A
  leaves a listed row at offset 0 where it was. On \<open>swap_store\<close> (offsets 1 and 0
  exchanged within one user and feed, a table that satisfies the constraint and whose
  target state satisfies it too) Phase B first moves user story 1 to offset 0, which
  user story 2 still holds: the update raises IntegrityError and the transaction is
  rolled back, so the offsets stay mismatched.
\<close>

theorem swap_offsets_integrity_error:
  "fix_user_story_offset swap_store = Inl IntegrityError"
  by (simp add: fix_user_story_offset_def sql_mismatch_def swap_store_def update_offset_def)

subsection \<open>Batch loops and lookups\<close>

lemma find_SomeD: "find P xs = Some x \<Longrightarrow> x \<in> set xs \<and> P x"
  by (induction xs) (auto split: if_splits)

lemma get_story_row:
  assumes "get_story e s a = Inr st"
  shows "st \<in> set (storys s)"
  using assms
  by (auto simp: get_story_def split: sum.splits option.splits dest: find_SomeD)

lemma batch_invariant:
  assumes "batch body s xs = (s', err)" and "I s"
    and "\<And>s x s'. I s \<Longrightarrow> body s x = Inr s' \<Longrightarrow> I s'"
  shows "I s'"
  using assms(1,2)
proof (induction xs arbitrary: s)
  case Nil
  then show ?case by simp
next
  case (Cons x xs)
  show ?case
  proof (cases "body s x")
    case (Inl e)
    with Cons.prems show ?thesis by simp
  next
    case (Inr s1)
    with Cons.prems assms(3) [of s x s1] show ?thesis
      by (auto intro: Cons.IH)
  qed
qed

subsection \<open>update_story_has_mathjax\<close>

lemma marked_refl: "marked e s s"
  unfolding marked_def
  by (rule exI [of _ "{}"], rule exI [of _ "[]"]) (simp add: map_idI)

lemma marked_step:
  assumes d: "distinct (map story_pk (storys s))"
    and m: "marked e s s1"
    and b: "has_mathjax_body e s1 x = Inr s2"
  shows "marked e s s2"
proof -
  from m obtain W ws where
    st: "storys s1 = map (\<lambda>r. if story_pk r \<in> W then r\<lparr>has_mathjax := True\<rparr> else r) (storys s)"
    and W: "\<forall>r \<in> set (storys s). story_pk r \<in> W \<longrightarrow> story_has_mathjax e (content r)"
    and ws: "writes s1 = writes s @ ws"
      "\<forall>w \<in> set ws. \<exists>k c. w = SaveStory k c True \<and> story_has_mathjax e c"
    and fr: "feeds s1 = feeds s" "userstorys s1 = userstorys s" "warnings s1 = warnings s"
    unfolding marked_def by blast
  from b obtain r1 where g: "get_story e s1 x = Inr r1"
    by (auto simp: has_mathjax_body_def split: sum.splits)
  show ?thesis
  proof (cases "story_has_mathjax e (content r1)")
    case False
    with b g have "s2 = s1" by (simp add: has_mathjax_body_def)
    with m show ?thesis by simp
  next
    case True
    with b g have s2: "s2 = save_story_mathjax s1 (r1\<lparr>has_mathjax := True\<rparr>)"
      by (simp add: has_mathjax_body_def)
    from get_story_row [OF g] st obtain r0 where
      r0: "r0 \<in> set (storys s)" and r1: "r1 = (if story_pk r0 \<in> W then r0\<lparr>has_mathjax := True\<rparr> else r0)"
      by auto
    then have pk: "story_pk r1 = story_pk r0" and ct: "content r1 = content r0"
      by auto
    from d have inj: "inj_on story_pk (set (storys s))" by (simp add: distinct_map)
    have same: "r = r0" if "r \<in> set (storys s)" "story_pk r = story_pk r0" for r
      using inj that r0 by (auto dest: inj_onD)
    have upd: "r\<lparr>content := content r0, has_mathjax := True\<rparr> = r\<lparr>has_mathjax := True\<rparr>"
      if "r \<in> set (storys s)" "story_pk r = story_pk r0" for r
      using same [OF that] by simp
    let ?W = "insert (story_pk r0) W"
    have "storys s2 = map (\<lambda>r. if story_pk r \<in> ?W then r\<lparr>has_mathjax := True\<rparr> else r) (storys s)"
      unfolding s2 save_story_mathjax_def st using upd pk ct
      by auto
    moreover have "\<forall>r \<in> set (storys s). story_pk r \<in> ?W \<longrightarrow> story_has_mathjax e (content r)"
      using W True ct same by auto
    moreover have "writes s2 = writes s @ (ws @ [SaveStory (story_pk r1) (content r1) True])"
      unfolding s2 save_story_mathjax_def using ws by simp
    moreover have "\<forall>w \<in> set (ws @ [SaveStory (story_pk r1) (content r1) True]).
        \<exists>k c. w = SaveStory k c True \<and> story_has_mathjax e c"
      using ws True by auto
    moreover have "feeds s2 = feeds s" "userstorys s2 = userstorys s" "warnings s2 = warnings s"
      unfolding s2 save_story_mathjax_def using fr by simp_all
    ultimately show ?thesis
      unfolding marked_def by blast
  qed
qed

lemma update_story_has_mathjax_marked:
  assumes "distinct (map story_pk (storys s))"
    and "update_story_has_mathjax e s option_storys = (s', err)"
  shows "marked e s s'"
  using assms(2) marked_refl [of e s] marked_step [OF assms(1)]
  unfolding update_story_has_mathjax_def
  by (rule batch_invariant)

text \<open>
  Claim C10. \<^verbatim>\<open>update_story_has_mathjax\<close> is one-way. On a story table with distinct
  primary keys, whatever the option and whether or not the run ends with an exception,
  the stories after the run are the stories before it with \<open>has_mathjax\<close> set to
  \<open>True\<close> on some of those whose content the detector accepts, so a flag that was
  \<open>True\<close> stays \<open>True\<close>; every write of the run saves \<open>has_mathjax = True\<close> for a
  content the detector accepts. In any store, the body of the loop saves the story with
  \<open>has_mathjax = True\<close> when the detector accepts its content and returns the store as
  it is, without a write, when it does not.
\<close>

theorem update_story_has_mathjax_one_way:
  assumes "distinct (map story_pk (storys s))"
    and "update_story_has_mathjax e s option_storys = (s', err)"
  shows "(\<exists>W ws.
            storys s' = map (\<lambda>r. if story_pk r \<in> W then r\<lparr>has_mathjax := True\<rparr> else r) (storys s) \<and>
            (\<forall>r \<in> set (storys s). story_pk r \<in> W \<longrightarrow> story_has_mathjax e (content r)) \<and>
            writes s' = writes s @ ws \<and>
            (\<forall>w \<in> set ws. \<exists>k c. w = SaveStory k c True \<and> story_has_mathjax e c)) \<and>
         (\<forall>s1 x st. get_story e s1 x = Inr st \<longrightarrow>
            has_mathjax_body e s1 x =
              (if story_has_mathjax e (content st)
               then Inr (save_story_mathjax s1 (st\<lparr>has_mathjax := True\<rparr>))
               else Inr s1))"
proof -
  from update_story_has_mathjax_marked [OF assms]
  have "\<exists>W ws.
            storys s' = map (\<lambda>r. if story_pk r \<in> W then r\<lparr>has_mathjax := True\<rparr> else r) (storys s) \<and>
            (\<forall>r \<in> set (storys s). story_pk r \<in> W \<longrightarrow> story_has_mathjax e (content r)) \<and>
            writes s' = writes s @ ws \<and>
            (\<forall>w \<in> set ws. \<exists>k c. w = SaveStory k c True \<and> story_has_mathjax e c)"
    unfolding marked_def by blast
  moreover have "\<forall>s1 x st. get_story e s1 x = Inr st \<longrightarrow>
            has_mathjax_body e s1 x =
              (if story_has_mathjax e (content st)
               then Inr (save_story_mathjax s1 (st\<lparr>has_mathjax := True\<rparr>))
               else Inr s1)"
    by (simp add: has_mathjax_body_def)
  ultimately show ?thesis by blast
qed

lemma mj_run:
  "update_story_has_mathjax demo_env mj_store (Some ''1,2'') =
     (mj_store\<lparr>storys :=
         [\<lparr>story_pk = 1, story_feed_id = 1, story_offset = 0, content = ''$x$'',
           dt_published = None, has_mathjax = True\<rparr>,
          \<lparr>story_pk = 2, story_feed_id = 1, story_offset = 1, content = ''plain'',
           dt_published = None, has_mathjax = True\<rparr>],
        writes := [SaveStory 1 ''$x$'' True]\<rparr>, None)"
  by (simp add: update_story_has_mathjax_def get_story_ids_def demo_env_def mj_store_def
      has_mathjax_body_def get_story_def pk_value_def py_int_def demo_int_def
      save_story_mathjax_def)

text \<open>
  The witness: both stories of \<open>mj_store\<close> are processed; the first gets the flag by
  the only write, the second keeps its flag and is not written.
\<close>

theorem update_story_has_mathjax_one_way_witness:
  "distinct (map story_pk (storys mj_store)) \<and>
   (\<exists>s'. update_story_has_mathjax demo_env mj_store (Some ''1,2'') = (s', None) \<and>
      map has_mathjax (storys s') = [True, True] \<and>
      writes s' = [SaveStory 1 ''$x$'' True] \<and>
      (\<exists>W. storys s' =
         map (\<lambda>r. if story_pk r \<in> W then r\<lparr>has_mathjax := True\<rparr> else r) (storys mj_store)))"
proof -
  have d: "distinct (map story_pk (storys mj_store))"
    by (simp add: mj_store_def)
  from update_story_has_mathjax_one_way [OF d mj_run]
  have "\<exists>W. storys (fst (update_story_has_mathjax demo_env mj_store (Some ''1,2''))) =
         map (\<lambda>r. if story_pk r \<in> W then r\<lparr>has_mathjax := True\<rparr> else r) (storys mj_store)"
    unfolding mj_run by auto
  then show ?thesis
    using d unfolding mj_run by (simp add: mj_store_def)
qed

subsection \<open>update_feed_dt_first_story_published\<close>

lemma get_by_pk_row:
  assumes "get_by_pk s k = Inr f"
  shows "f \<in> set (feeds s) \<and> feed_pk f = k"
  using assms
  by (auto simp: get_by_pk_def split: option.splits dest: find_SomeD)

lemma find_replaced:
  assumes "list_ex (\<lambda>r. feed_pk r = feed_pk g) xs"
  shows "find (\<lambda>r. feed_pk r = feed_pk g) (map (\<lambda>r. if feed_pk r = feed_pk g then g else r) xs) = Some g"
  using assms by (induction xs) auto

lemma find_appended:
  assumes "\<not> list_ex P xs" and "P g"
  shows "find P (xs @ [g]) = Some g"
  using assms by (induction xs) auto

lemma get_by_pk_save_feed: "get_by_pk (save_feed s g) (feed_pk g) = Inr g"
proof (cases "list_ex (\<lambda>r. feed_pk r = feed_pk g) (feeds s)")
  case True
  then show ?thesis
    by (simp add: get_by_pk_def save_feed_def find_replaced)
next
  case False
  then have "find (\<lambda>r. feed_pk r = feed_pk g) (feeds s @ [g]) = Some g"
    by (simp add: find_appended)
  with False show ?thesis
    by (simp add: get_by_pk_def save_feed_def)
qed

text \<open>
  Claim C6. For a feed that exists, the body of \<^verbatim>\<open>update_feed_dt_first_story_published\<close>
  returns the store as it is (no write, no log entry) when the first-published
  timestamp is set or \<open>total_storys \<le> 0\<close>. Otherwise, when there is no story at
  offset 0, it logs the missing row, writes nothing and raises nothing; otherwise it
  saves the feed with the story's published time, which is what a later lookup of the
  feed returns. In the first two cases and the third alike the loop goes on with the
  next feed.
\<close>

theorem first_published_backfill:
  assumes "get_by_pk s feed_id = Inr f"
  shows "(dt_first_story_published f \<noteq> None \<or> total_storys f \<le> 0 \<longrightarrow>
            first_published_body s feed_id = Inr s \<and>
            batch first_published_body s (feed_id # feed_ids) =
              batch first_published_body s feed_ids) \<and>
         (dt_first_story_published f = None \<and> 0 < total_storys f \<and>
          get_by_offset s feed_id 0 = Inl StoryDoesNotExist \<longrightarrow>
            first_published_body s feed_id =
              Inr (s\<lparr>warnings := warnings s @ [StoryNotExists feed_id]\<rparr>) \<and>
            batch first_published_body s (feed_id # feed_ids) =
              batch first_published_body
                (s\<lparr>warnings := warnings s @ [StoryNotExists feed_id]\<rparr>) feed_ids) \<and>
         (\<forall>st. dt_first_story_published f = None \<and> 0 < total_storys f \<and>
            get_by_offset s feed_id 0 = Inr st \<longrightarrow>
            (\<exists>s'. first_published_body s feed_id = Inr s' \<and>
               s' = save_feed s (f\<lparr>dt_first_story_published := dt_published st\<rparr>) \<and>
               get_by_pk s' feed_id = Inr (f\<lparr>dt_first_story_published := dt_published st\<rparr>) \<and>
               writes s' = writes s @ [SaveFeed (f\<lparr>dt_first_story_published := dt_published st\<rparr>)] \<and>
               batch first_published_body s (feed_id # feed_ids) =
                 batch first_published_body s' feed_ids))"
proof -
  from get_by_pk_row [OF assms] have pk: "feed_pk f = feed_id" by simp
  have "get_by_pk (save_feed s (f\<lparr>dt_first_story_published := d\<rparr>)) feed_id =
          Inr (f\<lparr>dt_first_story_published := d\<rparr>)" for d
    using get_by_pk_save_feed [of s "f\<lparr>dt_first_story_published := d\<rparr>"] pk by simp
  then show ?thesis
    using assms by (auto simp: first_published_body_def save_feed_def)
qed

text \<open>
  The witness: on \<open>backfill_store\<close> feed 2 has no story at offset 0; the run over
  feeds 1, 2, 3 logs it, goes on and fills in feed 3.
\<close>

theorem first_published_backfill_witness:
  "get_by_pk backfill_store 2 = Inr (feeds backfill_store ! 1) \<and>
   dt_first_story_published (feeds backfill_store ! 1) = None \<and>
   0 < total_storys (feeds backfill_store ! 1) \<and>
   get_by_offset backfill_store 2 0 = Inl StoryDoesNotExist \<and>
   first_published_body backfill_store 2 =
     Inr (backfill_store\<lparr>warnings := [StoryNotExists 2]\<rparr>) \<and>
   batch first_published_body backfill_store [2, 3] =
     batch first_published_body (backfill_store\<lparr>warnings := [StoryNotExists 2]\<rparr>) [3] \<and>
   map dt_first_story_published
     (feeds (fst (update_feed_dt_first_story_published demo_env backfill_store (Some ''1,2,3'')))) =
     [Some 20190101, None, Some 20200105] \<and>
   snd (update_feed_dt_first_story_published demo_env backfill_store (Some ''1,2,3'')) = None"
proof -
  have g: "get_by_pk backfill_store 2 = Inr (feeds backfill_store ! 1)"
    by (simp add: get_by_pk_def backfill_store_def)
  have o: "get_by_offset backfill_store 2 0 = Inl StoryDoesNotExist"
    by (simp add: get_by_offset_def backfill_store_def)
  have f: "dt_first_story_published (feeds backfill_store ! 1) = None"
    "0 < total_storys (feeds backfill_store ! 1)"
    by (simp_all add: backfill_store_def)
  have w: "warnings backfill_store = []"
    by (simp add: backfill_store_def)
  from first_published_backfill [OF g, of "[3]"] f o w
  have "first_published_body backfill_store 2 =
          Inr (backfill_store\<lparr>warnings := [StoryNotExists 2]\<rparr>) \<and>
        batch first_published_body backfill_store [2, 3] =
          batch first_published_body (backfill_store\<lparr>warnings := [StoryNotExists 2]\<rparr>) [3]"
    by simp
  moreover have "update_feed_dt_first_story_published demo_env backfill_store (Some ''1,2,3'') =
      (backfill_store\<lparr>feeds := (feeds backfill_store)
           [2 := (feeds backfill_store ! 2)\<lparr>dt_first_story_published := Some 20200105\<rparr>],
         writes := [SaveFeed ((feeds backfill_store ! 2)\<lparr>dt_first_story_published := Some 20200105\<rparr>)],
         warnings := [StoryNotExists 2]\<rparr>, None)"
    by (simp add: update_feed_dt_first_story_published_def get_feed_ids_def decode_feed_ids_def
        demo_env_def py_int_def demo_int_def first_published_body_def get_by_pk_def
        get_by_offset_def save_feed_def backfill_store_def)
  ultimately show ?thesis
    using g o f by (simp add: backfill_store_def)
qed

subsection \<open>Re-running the aggregate commands\<close>

text \<open>
  Claim C5, the counterexample. The feed of \<open>dry_store\<close> has no drift: its stored
  count, histogram and dryness are the recomputed ones. \<^verbatim>\<open>update_feed_dryness\<close> saves
  it all the same, on the first run and again on the second.
\<close>

theorem dryness_rerun_writes:
  "total_storys dry_feed = count_storys dry_store 1 \<and>
   monthly_story_count dry_feed = histogram (story_months demo_env dry_store 1) \<and>
   dryness dry_feed = msc_dryness demo_env (monthly_story_count dry_feed) \<and>
   update_feed_dryness demo_env dry_store (Some ''1'') =
     (dry_store\<lparr>writes := [SaveFeed dry_feed]\<rparr>, None) \<and>
   update_feed_dryness demo_env (dry_store\<lparr>writes := [SaveFeed dry_feed]\<rparr>) (Some ''1'') =
     (dry_store\<lparr>writes := [SaveFeed dry_feed, SaveFeed dry_feed]\<rparr>, None)"
  by (simp add: update_feed_dryness_def get_feed_ids_def decode_feed_ids_def
      demo_env_def py_int_def demo_int_def dryness_body_def get_by_pk_def refresh_from_db_def
      save_feed_def dry_store_def dry_feed_def count_storys_def histogram_def story_months_def)

lemma save_feed_same:
  assumes "distinct (map feed_pk (feeds s))" and "f \<in> set (feeds s)"
  shows "feeds (save_feed s f) = feeds s"
proof -
  from assms(1) have "inj_on feed_pk (set (feeds s))" by (simp add: distinct_map)
  with assms(2) have "r = f" if "r \<in> set (feeds s)" "feed_pk r = feed_pk f" for r
    using that by (auto dest: inj_onD)
  then have "map (\<lambda>r. if feed_pk r = feed_pk f then f else r) (feeds s) = feeds s"
    by (intro map_idI) auto
  moreover have "list_ex (\<lambda>r. feed_pk r = feed_pk f) (feeds s)"
    using assms(2) by (auto simp: list_ex_iff)
  ultimately show ?thesis by (simp add: save_feed_def)
qed

lemma batch_writes_refresh:
  "writes (fst (batch (\<lambda>s feed_id. Inr (refresh_feed_monthly_story_count e s feed_id)) s ids)) =
     writes s @ map RefreshMonthlyStoryCount ids"
  by (induction ids arbitrary: s) (simp_all add: refresh_feed_monthly_story_count_def)

text \<open>The repair of the story counts, feed by feed.\<close>

lemma total_storys_same:
  "total_storys r = c \<Longrightarrow> r\<lparr>total_storys := c\<rparr> = r"
  by (cases r) simp

lemma story_fix_storys:
  "storys (fst (story_fix_feed_total_storys s fid)) = storys s"
  by (simp add: story_fix_feed_total_storys_def)

lemma story_fix_feeds:
  "feeds (fst (story_fix_feed_total_storys s fid)) =
     map (\<lambda>r. if feed_pk r = fid then r\<lparr>total_storys := count_storys s fid\<rparr> else r) (feeds s)"
proof (cases "list_ex (\<lambda>r. feed_pk r = fid \<and> total_storys r \<noteq> count_storys s fid) (feeds s)")
  case True
  then show ?thesis by (simp add: story_fix_feed_total_storys_def)
next
  case False
  then have "\<forall>r \<in> set (feeds s). feed_pk r = fid \<longrightarrow> total_storys r = count_storys s fid"
    by (auto simp: list_ex_iff)
  then have "map (\<lambda>r. if feed_pk r = fid then r\<lparr>total_storys := count_storys s fid\<rparr> else r)
      (feeds s) = feeds s"
    by (intro map_idI) (simp add: total_storys_same)
  with False show ?thesis by (simp add: story_fix_feed_total_storys_def)
qed

lemma story_fix_writes:
  "writes (fst (story_fix_feed_total_storys s fid)) = writes s \<or>
   writes (fst (story_fix_feed_total_storys s fid)) =
     writes s @ [FixTotalStorys fid (count_storys s fid)]"
  by (simp add: story_fix_feed_total_storys_def)

lemma count_storys_cong:
  "storys s' = storys s \<Longrightarrow> count_storys s' fid = count_storys s fid"
  by (simp add: count_storys_def)

lemma fix_loop_storys: "storys (fst (fix_loop s n l)) = storys s"
proof (induction l arbitrary: s n)
  case Nil
  then show ?case by simp
next
  case (Cons x l)
  obtain feed_id rest where x: "x = (feed_id, rest)" by (cases x)
  obtain s' fixed where f: "story_fix_feed_total_storys s feed_id = (s', fixed)"
    by (cases "story_fix_feed_total_storys s feed_id")
  from story_fix_storys [of s feed_id] f have "storys s' = storys s" by simp
  with Cons.IH [of s'] x f show ?case by simp
qed

lemma fix_loop_writes:
  "\<exists>ws. writes (fst (fix_loop s n l)) = writes s @ ws \<and>
     (\<forall>w \<in> set ws. \<exists>x \<in> set l. w = FixTotalStorys (fst x) (count_storys s (fst x)))"
proof (induction l arbitrary: s n)
  case Nil
  then show ?case by simp
next
  case (Cons x l)
  obtain feed_id rest where x: "x = (feed_id, rest)" by (cases x)
  obtain s' fixed where f: "story_fix_feed_total_storys s feed_id = (s', fixed)"
    by (cases "story_fix_feed_total_storys s feed_id")
  let ?n = "if fixed then n + 1 else n"
  from story_fix_storys [of s feed_id] f have st: "storys s' = storys s" by simp
  from Cons.IH [of s' ?n] obtain ws where
    ws: "writes (fst (fix_loop s' ?n l)) = writes s' @ ws"
      "\<forall>w \<in> set ws. \<exists>x \<in> set l. w = FixTotalStorys (fst x) (count_storys s' (fst x))"
    by blast
  from ws(2) have ws2:
    "\<forall>w \<in> set ws. \<exists>x \<in> set l. w = FixTotalStorys (fst x) (count_storys s (fst x))"
    by (simp add: count_storys_cong [OF st])
  from story_fix_writes [of s feed_id] f
  consider "writes s' = writes s"
    | "writes s' = writes s @ [FixTotalStorys feed_id (count_storys s feed_id)]"
    by auto
  then show ?case
  proof cases
    case 1
    with ws(1) ws2 x f show ?thesis by auto
  next
    case 2
    have "writes (fst (fix_loop s n (x # l))) =
        writes s @ (FixTotalStorys feed_id (count_storys s feed_id) # ws)"
      using 2 ws(1) x f by simp
    moreover have "\<forall>w \<in> set (FixTotalStorys feed_id (count_storys s feed_id) # ws).
        \<exists>y \<in> set (x # l). w = FixTotalStorys (fst y) (count_storys s (fst y))"
      using ws2 x by auto
    ultimately show ?thesis by blast
  qed
qed

lemma fix_loop_feeds:
  "feeds (fst (fix_loop s n l)) =
     map (\<lambda>r. if feed_pk r \<in> fst ` set l
               then r\<lparr>total_storys := count_storys s (feed_pk r)\<rparr> else r) (feeds s)"
proof (induction l arbitrary: s n)
  case Nil
  then show ?case by (simp add: map_idI)
next
  case (Cons x l)
  obtain feed_id rest where x: "x = (feed_id, rest)" by (cases x)
  obtain s' fixed where f: "story_fix_feed_total_storys s feed_id = (s', fixed)"
    by (cases "story_fix_feed_total_storys s feed_id")
  let ?n = "if fixed then n + 1 else n"
  from story_fix_storys [of s feed_id] f have st: "storys s' = storys s" by simp
  from story_fix_feeds [of s feed_id] f have fs: "feeds s' =
      map (\<lambda>r. if feed_pk r = feed_id then r\<lparr>total_storys := count_storys s feed_id\<rparr> else r)
        (feeds s)"
    by simp
  have "feeds (fst (fix_loop s n (x # l))) = feeds (fst (fix_loop s' ?n l))"
    using x f by simp
  also have "\<dots> = map (\<lambda>r. if feed_pk r \<in> fst ` set l
               then r\<lparr>total_storys := count_storys s (feed_pk r)\<rparr> else r) (feeds s')"
    by (simp add: Cons.IH count_storys_cong [OF st])
  also have "\<dots> = map (\<lambda>r. if feed_pk r \<in> fst ` set (x # l)
               then r\<lparr>total_storys := count_storys s (feed_pk r)\<rparr> else r) (feeds s)"
    unfolding fs map_map using x by (intro map_cong refl) auto
  finally show ?case .
qed

lemma fix_feed_total_storys_storys:
  "storys (fst (fix_feed_total_storys s dry_run)) = storys s"
  by (simp add: fix_feed_total_storys_def fix_loop_storys)

lemma fix_feed_total_storys_feeds:
  "feeds (fst (fix_feed_total_storys s False)) =
     map (\<lambda>r. r\<lparr>total_storys := count_storys s (feed_pk r)\<rparr>) (feeds s)"
proof -
  have "(if feed_pk r \<in> fst ` set (query_feed_incorrect_total_storys s)
         then r\<lparr>total_storys := count_storys s (feed_pk r)\<rparr> else r) =
        r\<lparr>total_storys := count_storys s (feed_pk r)\<rparr>" if "r \<in> set (feeds s)" for r
  proof (cases "total_storys r = count_storys s (feed_pk r)")
    case True
    then show ?thesis by (simp add: total_storys_same)
  next
    case False
    with that have "feed_pk r \<in> fst ` set (query_feed_incorrect_total_storys s)"
      by (force simp: query_feed_incorrect_total_storys_def)
    then show ?thesis by simp
  qed
  then show ?thesis
    by (simp add: fix_feed_total_storys_def fix_loop_feeds cong: map_cong)
qed

lemma fix_feed_total_storys_writes:
  "\<exists>ws. writes (fst (fix_feed_total_storys s dry_run)) = writes s @ ws \<and>
     (\<forall>w \<in> set ws. \<exists>r \<in> set (feeds s). total_storys r \<noteq> count_storys s (feed_pk r) \<and>
        w = FixTotalStorys (feed_pk r) (count_storys s (feed_pk r)))"
proof (cases dry_run)
  case True
  then show ?thesis by (simp add: fix_feed_total_storys_def)
next
  case False
  from fix_loop_writes [of s 0 "query_feed_incorrect_total_storys s"] obtain ws where
    ws: "writes (fst (fix_loop s 0 (query_feed_incorrect_total_storys s))) = writes s @ ws"
      "\<forall>w \<in> set ws. \<exists>x \<in> set (query_feed_incorrect_total_storys s).
         w = FixTotalStorys (fst x) (count_storys s (fst x))"
    by blast
  from ws(2) have "\<forall>w \<in> set ws. \<exists>r \<in> set (feeds s).
      total_storys r \<noteq> count_storys s (feed_pk r) \<and>
      w = FixTotalStorys (feed_pk r) (count_storys s (feed_pk r))"
    by (fastforce simp: query_feed_incorrect_total_storys_def)
  with ws(1) False show ?thesis
    by (auto simp: fix_feed_total_storys_def)
qed

lemma fix_feed_total_storys_rerun:
  "fix_feed_total_storys (fst (fix_feed_total_storys s False)) dry_run =
     (fst (fix_feed_total_storys s False), 0)"
proof -
  let ?s = "fst (fix_feed_total_storys s False)"
  have "count_storys ?s fid = count_storys s fid" for fid
    by (rule count_storys_cong) (rule fix_feed_total_storys_storys)
  then have "query_feed_incorrect_total_storys ?s = []"
    by (simp add: query_feed_incorrect_total_storys_def fix_feed_total_storys_feeds
        filter_empty_conv)
  then show ?thesis
    by (simp add: fix_feed_total_storys_def)
qed

text \<open>The histogram refresh and the body of \<^verbatim>\<open>update_feed_dryness\<close>.\<close>

lemma monthly_story_count_same:
  "monthly_story_count r = h \<Longrightarrow> r\<lparr>monthly_story_count := h\<rparr> = r"
  by (cases r) simp

lemma dryness_same:
  "dryness r = d \<Longrightarrow> r\<lparr>dryness := d\<rparr> = r"
  by (cases r) simp

lemma refresh_storys:
  "storys (refresh_feed_monthly_story_count e s fid) = storys s"
  by (simp add: refresh_feed_monthly_story_count_def)

lemma story_months_cong:
  "storys s' = storys s \<Longrightarrow> story_months e s' fid = story_months e s fid"
  by (simp add: story_months_def)

lemma refresh_same:
  assumes "\<forall>r \<in> set (feeds s). feed_pk r = fid \<longrightarrow>
             monthly_story_count r = histogram (story_months e s fid)"
  shows "feeds (refresh_feed_monthly_story_count e s fid) = feeds s"
proof -
  from assms have "map (\<lambda>r. if feed_pk r = fid
                    then r\<lparr>monthly_story_count := histogram (story_months e s fid)\<rparr>
                    else r) (feeds s) = feeds s"
    by (intro map_idI) (simp add: monthly_story_count_same)
  then show ?thesis by (simp add: refresh_feed_monthly_story_count_def)
qed

lemma find_mapped: "find P (map g xs) = map_option g (find (P \<circ> g) xs)"
  by (induction xs) simp_all

lemma get_by_pk_refresh:
  assumes "get_by_pk s fid = Inr f"
  shows "get_by_pk (refresh_feed_monthly_story_count e s fid) fid =
           Inr (f\<lparr>monthly_story_count := histogram (story_months e s fid)\<rparr>)"
proof -
  let ?g = "\<lambda>r. if feed_pk r = fid
                    then r\<lparr>monthly_story_count := histogram (story_months e s fid)\<rparr>
                    else r"
  have c: "(\<lambda>r. feed_pk r = fid) \<circ> ?g = (\<lambda>r. feed_pk r = fid)"
    by (rule ext) simp
  from assms have "find (\<lambda>r. feed_pk r = fid) (feeds s) = Some f"
    by (simp add: get_by_pk_def split: option.splits)
  moreover from get_by_pk_row [OF assms] have "feed_pk f = fid" by simp
  ultimately show ?thesis
    by (simp add: get_by_pk_def refresh_feed_monthly_story_count_def find_mapped c)
qed

lemma batch_refresh_same:
  assumes "\<forall>r \<in> set (feeds s). feed_pk r \<in> set ids \<longrightarrow>
             monthly_story_count r = histogram (story_months e s (feed_pk r))"
  shows "feeds (fst (batch (\<lambda>s feed_id. Inr (refresh_feed_monthly_story_count e s feed_id)) s ids)) =
           feeds s"
  using assms
proof (induction ids arbitrary: s)
  case Nil
  then show ?case by simp
next
  case (Cons fid ids)
  let ?s = "refresh_feed_monthly_story_count e s fid"
  from Cons.prems have f: "feeds ?s = feeds s"
    by (intro refresh_same) simp
  have "story_months e ?s k = story_months e s k" for k
    by (rule story_months_cong) (rule refresh_storys)
  with Cons.prems f have "\<forall>r \<in> set (feeds ?s). feed_pk r \<in> set ids \<longrightarrow>
             monthly_story_count r = histogram (story_months e ?s (feed_pk r))"
    by simp
  from Cons.IH [OF this] f show ?case by simp
qed

lemma dryness_body_saves:
  assumes g: "get_by_pk s feed_id = Inr f" and t: "0 < total_storys f"
  shows "dryness_body e s feed_id =
     (let s1 = (if monthly_story_count f = []
                then refresh_feed_monthly_story_count e s feed_id else s);
          f1 = (if monthly_story_count f = []
                then f\<lparr>monthly_story_count := histogram (story_months e s feed_id)\<rparr> else f)
      in Inr (save_feed s1 (f1\<lparr>dryness := msc_dryness e (monthly_story_count f1)\<rparr>)))"
proof -
  from get_by_pk_row [OF g] have k: "feed_pk f = feed_id" by simp
  show ?thesis
  proof (cases "monthly_story_count f = []")
    case True
    from get_by_pk_refresh [OF g, of e] k
    have "refresh_from_db (refresh_feed_monthly_story_count e s feed_id) f =
        Inr (f\<lparr>monthly_story_count := histogram (story_months e s feed_id)\<rparr>)"
      by (simp add: refresh_from_db_def)
    with g t True show ?thesis
      by (simp add: dryness_body_def Let_def)
  next
    case False
    from g k have "refresh_from_db s f = Inr f"
      by (simp add: refresh_from_db_def)
    with g t False show ?thesis
      by (simp add: dryness_body_def Let_def)
  qed
qed

lemma dryness_body_same:
  assumes g: "get_by_pk s feed_id = Inr f"
    and d: "distinct (map feed_pk (feeds s))"
    and n: "dryness f = msc_dryness e (monthly_story_count f)"
    and h: "monthly_story_count f = [] \<longrightarrow> histogram (story_months e s feed_id) = []"
  shows "feeds (save_feed
      (if monthly_story_count f = [] then refresh_feed_monthly_story_count e s feed_id else s)
      ((if monthly_story_count f = []
        then f\<lparr>monthly_story_count := histogram (story_months e s feed_id)\<rparr> else f)
       \<lparr>dryness := msc_dryness e
          (monthly_story_count
            (if monthly_story_count f = []
             then f\<lparr>monthly_story_count := histogram (story_months e s feed_id)\<rparr> else f))\<rparr>)) =
     feeds s"
proof -
  from get_by_pk_row [OF g] have k: "feed_pk f = feed_id" and m: "f \<in> set (feeds s)"
    by simp_all
  show ?thesis
  proof (cases "monthly_story_count f = []")
    case True
    with h have hh: "histogram (story_months e s feed_id) = []" by simp
    from d have "inj_on feed_pk (set (feeds s))" by (simp add: distinct_map)
    with m k have "r = f" if "r \<in> set (feeds s)" "feed_pk r = feed_id" for r
      using that by (auto dest: inj_onD)
    with True hh have "\<forall>r \<in> set (feeds s). feed_pk r = feed_id \<longrightarrow>
             monthly_story_count r = histogram (story_months e s feed_id)"
      by auto
    from refresh_same [OF this]
    have fs: "feeds (refresh_feed_monthly_story_count e s feed_id) = feeds s" .
    have f1: "f\<lparr>monthly_story_count := histogram (story_months e s feed_id)\<rparr> = f"
      using True hh by (simp add: monthly_story_count_same)
    have f2: "f\<lparr>dryness := msc_dryness e (monthly_story_count f)\<rparr> = f"
      using n by (simp add: dryness_same)
    have "feeds (save_feed (refresh_feed_monthly_story_count e s feed_id) f) = feeds s"
      using save_feed_same [of "refresh_feed_monthly_story_count e s feed_id" f] d m fs
      by simp
    with True f1 f2 show ?thesis by simp
  next
    case False
    have f2: "f\<lparr>dryness := msc_dryness e (monthly_story_count f)\<rparr> = f"
      using n by (simp add: dryness_same)
    from save_feed_same [OF d m] False f2 show ?thesis by simp
  qed
qed

text \<open>
  Claim C5, as amended. \<^verbatim>\<open>fix_feed_total_storys\<close> writes only feeds whose stored
  \<open>total_storys\<close> differs from the recount, so a feed without drift is not written, and
  a second run writes nothing at all. The body of
  \<^verbatim>\<open>update_feed_dt_first_story_published\<close> changes nothing for a feed whose timestamp
  is set. The body of \<^verbatim>\<open>update_feed_dryness\<close> saves every feed with
  \<open>total_storys > 0\<close>, after a refresh of the histogram when the stored one is empty;
  when the stored dryness is already the dryness of the stored histogram (and an empty
  stored histogram is the recomputed one) and primary keys are distinct, the feed table
  is left as it was. \<^verbatim>\<open>update_feed_monthly_story_count\<close> refreshes every listed feed,
  one write each; when the stored histograms of the listed feeds are the recomputed
  ones, the feed table is left as it was.
\<close>

theorem aggregate_rerun:
  "(\<exists>ws. writes (fst (fix_feed_total_storys s dry_run)) = writes s @ ws \<and>
      (\<forall>w \<in> set ws. \<exists>r \<in> set (feeds s). total_storys r \<noteq> count_storys s (feed_pk r) \<and>
         w = FixTotalStorys (feed_pk r) (count_storys s (feed_pk r)))) \<and>
   fix_feed_total_storys (fst (fix_feed_total_storys s False)) dry_run =
     (fst (fix_feed_total_storys s False), 0) \<and>
   (\<forall>f. get_by_pk s feed_id = Inr f \<and> dt_first_story_published f \<noteq> None \<longrightarrow>
      first_published_body s feed_id = Inr s) \<and>
   (\<forall>f. get_by_pk s feed_id = Inr f \<and> 0 < total_storys f \<longrightarrow>
      (let s1 = (if monthly_story_count f = []
                 then refresh_feed_monthly_story_count e s feed_id else s);
           f1 = (if monthly_story_count f = []
                 then f\<lparr>monthly_story_count := histogram (story_months e s feed_id)\<rparr> else f);
           f2 = f1\<lparr>dryness := msc_dryness e (monthly_story_count f1)\<rparr>
       in dryness_body e s feed_id = Inr (save_feed s1 f2) \<and>
          writes (save_feed s1 f2) = writes s1 @ [SaveFeed f2] \<and>
          (distinct (map feed_pk (feeds s)) \<and>
           dryness f = msc_dryness e (monthly_story_count f) \<and>
           (monthly_story_count f = [] \<longrightarrow> histogram (story_months e s feed_id) = []) \<longrightarrow>
             feeds (save_feed s1 f2) = feeds s))) \<and>
   (\<forall>feed_ids. get_feed_ids e s option_feeds = Inr feed_ids \<longrightarrow>
      writes (fst (update_feed_monthly_story_count e s option_feeds)) =
        writes s @ map RefreshMonthlyStoryCount feed_ids \<and>
      ((\<forall>r \<in> set (feeds s). feed_pk r \<in> set feed_ids \<longrightarrow>
          monthly_story_count r = histogram (story_months e s (feed_pk r))) \<longrightarrow>
       feeds (fst (update_feed_monthly_story_count e s option_feeds)) = feeds s))"
proof (intro conjI allI impI)
  show "\<exists>ws. writes (fst (fix_feed_total_storys s dry_run)) = writes s @ ws \<and>
      (\<forall>w \<in> set ws. \<exists>r \<in> set (feeds s). total_storys r \<noteq> count_storys s (feed_pk r) \<and>
         w = FixTotalStorys (feed_pk r) (count_storys s (feed_pk r)))"
    by (rule fix_feed_total_storys_writes)
next
  show "fix_feed_total_storys (fst (fix_feed_total_storys s False)) dry_run =
     (fst (fix_feed_total_storys s False), 0)"
    by (rule fix_feed_total_storys_rerun)
next
  fix f assume "get_by_pk s feed_id = Inr f \<and> dt_first_story_published f \<noteq> None"
  then show "first_published_body s feed_id = Inr s"
    by (auto simp: first_published_body_def)
next
  fix f assume a: "get_by_pk s feed_id = Inr f \<and> 0 < total_storys f"
  then have g: "get_by_pk s feed_id = Inr f" and t: "0 < total_storys f" by simp_all
  let ?s1 = "if monthly_story_count f = []
             then refresh_feed_monthly_story_count e s feed_id else s"
  let ?f1 = "if monthly_story_count f = []
             then f\<lparr>monthly_story_count := histogram (story_months e s feed_id)\<rparr> else f"
  let ?f2 = "?f1\<lparr>dryness := msc_dryness e (monthly_story_count ?f1)\<rparr>"
  have 1: "dryness_body e s feed_id = Inr (save_feed ?s1 ?f2)"
    using dryness_body_saves [OF g t, of e] by (simp add: Let_def)
  have 2: "writes (save_feed ?s1 ?f2) = writes ?s1 @ [SaveFeed ?f2]"
    by (simp add: save_feed_def)
  have 3: "feeds (save_feed ?s1 ?f2) = feeds s"
    if "distinct (map feed_pk (feeds s)) \<and>
        dryness f = msc_dryness e (monthly_story_count f) \<and>
        (monthly_story_count f = [] \<longrightarrow> histogram (story_months e s feed_id) = [])"
    using dryness_body_same [OF g, of e] that by blast
  from 1 2 3 show "let s1 = ?s1; f1 = ?f1;
           f2 = f1\<lparr>dryness := msc_dryness e (monthly_story_count f1)\<rparr>
       in dryness_body e s feed_id = Inr (save_feed s1 f2) \<and>
          writes (save_feed s1 f2) = writes s1 @ [SaveFeed f2] \<and>
          (distinct (map feed_pk (feeds s)) \<and>
           dryness f = msc_dryness e (monthly_story_count f) \<and>
           (monthly_story_count f = [] \<longrightarrow> histogram (story_months e s feed_id) = []) \<longrightarrow>
             feeds (save_feed s1 f2) = feeds s)"
    unfolding Let_def by blast
next
  fix feed_ids assume "get_feed_ids e s option_feeds = Inr feed_ids"
  then show "writes (fst (update_feed_monthly_story_count e s option_feeds)) =
        writes s @ map RefreshMonthlyStoryCount feed_ids"
    by (simp add: update_feed_monthly_story_count_def batch_writes_refresh)
next
  fix feed_ids
  assume "get_feed_ids e s option_feeds = Inr feed_ids"
    and "\<forall>r \<in> set (feeds s). feed_pk r \<in> set feed_ids \<longrightarrow>
          monthly_story_count r = histogram (story_months e s (feed_pk r))"
  then show "feeds (fst (update_feed_monthly_story_count e s option_feeds)) = feeds s"
    by (simp add: update_feed_monthly_story_count_def batch_refresh_same)
qed

text \<open>
  The witness: in \<open>drift_store\<close> the first feed has no drift and the second has; only
  the second is written by \<^verbatim>\<open>fix_feed_total_storys\<close>.
\<close>

theorem aggregate_rerun_witness:
  "get_by_pk drift_store 1 = Inr dry_feed \<and>
   dt_first_story_published dry_feed \<noteq> None \<and>
   0 < total_storys dry_feed \<and>
   distinct (map feed_pk (feeds drift_store)) \<and>
   dryness dry_feed = msc_dryness demo_env (monthly_story_count dry_feed) \<and>
   monthly_story_count dry_feed = histogram (story_months demo_env drift_store 1) \<and>
   get_feed_ids demo_env drift_store (Some ''1'') = Inr [1] \<and>
   writes (fst (fix_feed_total_storys drift_store False)) = [FixTotalStorys 2 0] \<and>
   fix_feed_total_storys (fst (fix_feed_total_storys drift_store False)) False =
     (fst (fix_feed_total_storys drift_store False), 0) \<and>
   first_published_body drift_store 1 = Inr drift_store \<and>
   dryness_body demo_env drift_store 1 = Inr (save_feed drift_store dry_feed) \<and>
   writes (save_feed drift_store dry_feed) = [SaveFeed dry_feed] \<and>
   feeds (save_feed drift_store dry_feed) = feeds drift_store \<and>
   writes (fst (update_feed_monthly_story_count demo_env drift_store (Some ''1''))) =
     [RefreshMonthlyStoryCount 1] \<and>
   feeds (fst (update_feed_monthly_story_count demo_env drift_store (Some ''1''))) =
     feeds drift_store"
proof -
  have g: "get_by_pk drift_store 1 = Inr dry_feed"
    by (simp add: get_by_pk_def drift_store_def dry_feed_def)
  have f: "dt_first_story_published dry_feed \<noteq> None" "0 < total_storys dry_feed"
    "monthly_story_count dry_feed \<noteq> []"
    "dryness dry_feed = msc_dryness demo_env (monthly_story_count dry_feed)"
    by (simp_all add: dry_feed_def demo_env_def)
  have h: "monthly_story_count dry_feed = histogram (story_months demo_env drift_store 1)"
    by (simp add: dry_feed_def demo_env_def histogram_def story_months_def drift_store_def)
  have d: "distinct (map feed_pk (feeds drift_store))"
    by (simp add: drift_store_def dry_feed_def)
  have i: "get_feed_ids demo_env drift_store (Some ''1'') = Inr [1]"
    by (simp add: get_feed_ids_def decode_feed_ids_def demo_env_def py_int_def demo_int_def)
  have u: "dry_feed\<lparr>dryness := msc_dryness demo_env (monthly_story_count dry_feed)\<rparr> = dry_feed"
    by (simp add: dry_feed_def demo_env_def)
  have w: "writes drift_store = []"
    by (simp add: drift_store_def)
  have x: "writes (fst (fix_feed_total_storys drift_store False)) = [FixTotalStorys 2 0]"
    by (simp add: fix_feed_total_storys_def query_feed_incorrect_total_storys_def
        story_fix_feed_total_storys_def count_storys_def drift_store_def dry_feed_def)
  have m: "\<forall>r \<in> set (feeds drift_store). feed_pk r \<in> set [1] \<longrightarrow>
      monthly_story_count r = histogram (story_months demo_env drift_store (feed_pk r))"
    using h by (simp add: drift_store_def dry_feed_def)
  note rerun = aggregate_rerun [of drift_store False 1 demo_env "Some ''1''"]
  from rerun have c1: "fix_feed_total_storys (fst (fix_feed_total_storys drift_store False)) False =
     (fst (fix_feed_total_storys drift_store False), 0)"
    by blast
  from rerun g f(1) have c2: "first_published_body drift_store 1 = Inr drift_store"
    by blast
  from rerun g f(2) have "let s1 = (if monthly_story_count dry_feed = []
                 then refresh_feed_monthly_story_count demo_env drift_store 1 else drift_store);
           f1 = (if monthly_story_count dry_feed = []
                 then dry_feed\<lparr>monthly_story_count :=
                        histogram (story_months demo_env drift_store 1)\<rparr> else dry_feed);
           f2 = f1\<lparr>dryness := msc_dryness demo_env (monthly_story_count f1)\<rparr>
       in dryness_body demo_env drift_store 1 = Inr (save_feed s1 f2) \<and>
          writes (save_feed s1 f2) = writes s1 @ [SaveFeed f2] \<and>
          (distinct (map feed_pk (feeds drift_store)) \<and>
           dryness dry_feed = msc_dryness demo_env (monthly_story_count dry_feed) \<and>
           (monthly_story_count dry_feed = [] \<longrightarrow>
              histogram (story_months demo_env drift_store 1) = []) \<longrightarrow>
             feeds (save_feed s1 f2) = feeds drift_store)"
    by blast
  then have c3: "dryness_body demo_env drift_store 1 = Inr (save_feed drift_store dry_feed)"
    and c4: "writes (save_feed drift_store dry_feed) = [SaveFeed dry_feed]"
    and c5: "feeds (save_feed drift_store dry_feed) = feeds drift_store"
    unfolding Let_def if_not_P [OF f(3)] u w append_Nil using d f(3,4) by blast+
  from rerun i have c6: "writes (fst (update_feed_monthly_story_count demo_env drift_store (Some ''1''))) =
      writes drift_store @ map RefreshMonthlyStoryCount [1]"
    by blast
  have c6': "writes (fst (update_feed_monthly_story_count demo_env drift_store (Some ''1''))) =
      [RefreshMonthlyStoryCount 1]"
    using c6 w by simp
  from rerun i m have c7: "feeds (fst (update_feed_monthly_story_count demo_env drift_store (Some ''1''))) =
      feeds drift_store"
    by blast
  show ?thesis
    using g f(1,2,4) h d i x c1 c2 c3 c4 c5 c6' c7
    by blast
qed

subsection \<open>update_feed_use_proxy\<close>

lemma find_flagged:
  "find (\<lambda>r. feed_pk r = k) (flagged W tbl) =
     map_option (\<lambda>r. if feed_pk r \<in> W then r\<lparr>use_proxy := True\<rparr> else r)
       (find (\<lambda>r. feed_pk r = k) tbl)"
  by (induction tbl) (auto simp: flagged_def)

lemma flagged_pks: "map feed_pk (flagged W tbl) = map feed_pk tbl"
  by (induction tbl) (simp_all add: flagged_def)

lemma flagged_save:
  assumes d: "distinct (map feed_pk tbl)" and r0: "r0 \<in> set tbl"
  shows "map (\<lambda>r. if feed_pk r = feed_pk r0 then r0\<lparr>use_proxy := True\<rparr> else r) (flagged W tbl) =
         flagged (insert (feed_pk r0) W) tbl"
proof -
  from d have "inj_on feed_pk (set tbl)" by (simp add: distinct_map)
  with r0 have "r = r0" if "r \<in> set tbl" "feed_pk r = feed_pk r0" for r
    using that by (auto dest: inj_onD)
  then show ?thesis
    by (auto simp: flagged_def)
qed

lemma mark_step:
  assumes d: "distinct (map feed_pk tbl)" and fl: "feeds s = flagged W tbl"
    and r: "refresh_from_db s f = Inr f1"
  shows "\<exists>r0 \<in> set tbl. feed_pk r0 = feed_pk f \<and>
           f1\<lparr>use_proxy := True\<rparr> = r0\<lparr>use_proxy := True\<rparr> \<and>
           feeds (save_feed s (f1\<lparr>use_proxy := True\<rparr>)) = flagged (insert (feed_pk f) W) tbl"
proof -
  from r fl obtain r0 where f0: "find (\<lambda>r. feed_pk r = feed_pk f) tbl = Some r0"
    and f1: "f1 = (if feed_pk r0 \<in> W then r0\<lparr>use_proxy := True\<rparr> else r0)"
    by (auto simp: refresh_from_db_def get_by_pk_def find_flagged split: option.splits)
  from find_SomeD [OF f0] have r0: "r0 \<in> set tbl" "feed_pk r0 = feed_pk f" by simp_all
  from f1 have u: "f1\<lparr>use_proxy := True\<rparr> = r0\<lparr>use_proxy := True\<rparr>" by simp
  have "feed_pk r0 \<in> set (map feed_pk (flagged W tbl))"
    unfolding flagged_pks using r0(1) by simp
  then have ex: "list_ex (\<lambda>r. feed_pk r = feed_pk r0) (flagged W tbl)"
    by (auto simp: list_ex_iff)
  have "feeds (save_feed s (r0\<lparr>use_proxy := True\<rparr>)) = flagged (insert (feed_pk r0) W) tbl"
    using ex flagged_save [OF d r0(1), of W] by (simp add: save_feed_def fl)
  with r0 u show ?thesis by auto
qed

lemma mark_loop_flagged:
  assumes d: "distinct (map feed_pk tbl)"
    and "feeds s = flagged W tbl" and "mark_loop s pf = Inr s'"
  shows "feeds s' = flagged (W \<union> feed_pk ` set pf) tbl \<and>
         (\<exists>ws. writes s' = writes s @ ws \<and> length ws = length pf \<and>
            (\<forall>w \<in> set ws. \<exists>f. w = SaveFeed f \<and> use_proxy f)) \<and>
         storys s' = storys s \<and> userstorys s' = userstorys s \<and> warnings s' = warnings s"
  using assms(2,3)
proof (induction pf arbitrary: s W)
  case Nil
  then show ?case by simp
next
  case (Cons f pf)
  from Cons.prems(2) obtain f1 where r: "refresh_from_db s f = Inr f1"
    and m: "mark_loop (save_feed s (f1\<lparr>use_proxy := True\<rparr>)) pf = Inr s'"
    by (auto split: sum.splits)
  let ?s1 = "save_feed s (f1\<lparr>use_proxy := True\<rparr>)"
  from mark_step [OF d Cons.prems(1) r]
  have fl: "feeds ?s1 = flagged (insert (feed_pk f) W) tbl" by blast
  from Cons.IH [OF fl m] obtain ws where
    a: "feeds s' = flagged (insert (feed_pk f) W \<union> feed_pk ` set pf) tbl"
    and b: "writes s' = writes ?s1 @ ws" "length ws = length pf"
      "\<forall>w \<in> set ws. \<exists>f. w = SaveFeed f \<and> use_proxy f"
    and c: "storys s' = storys ?s1" "userstorys s' = userstorys ?s1" "warnings s' = warnings ?s1"
    by blast
  have "writes s' = writes s @ (SaveFeed (f1\<lparr>use_proxy := True\<rparr>) # ws)"
    using b by (simp add: save_feed_def)
  moreover have "length (SaveFeed (f1\<lparr>use_proxy := True\<rparr>) # ws) = length (f # pf)"
    using b by simp
  moreover have "\<forall>w \<in> set (SaveFeed (f1\<lparr>use_proxy := True\<rparr>) # ws). \<exists>f. w = SaveFeed f \<and> use_proxy f"
    using b by auto
  ultimately have "\<exists>ws. writes s' = writes s @ ws \<and> length ws = length (f # pf) \<and>
            (\<forall>w \<in> set ws. \<exists>f. w = SaveFeed f \<and> use_proxy f)"
    by blast
  with a c show ?case
    by (simp add: save_feed_def)
qed

lemma mark_loop_rows:
  assumes d: "distinct (map feed_pk tbl)"
    and "feeds s = flagged W tbl" and "set pf \<subseteq> set tbl"
  shows "\<exists>s'. mark_loop s pf = Inr s' \<and>
           writes s' = writes s @ map (\<lambda>f. SaveFeed (f\<lparr>use_proxy := True\<rparr>)) pf"
  using assms(2,3)
proof (induction pf arbitrary: s W)
  case Nil
  then show ?case by simp
next
  case (Cons f pf)
  from Cons.prems have f: "f \<in> set tbl" by simp
  from d have inj: "inj_on feed_pk (set tbl)" by (simp add: distinct_map)
  have "find (\<lambda>r. feed_pk r = feed_pk f) tbl \<noteq> None"
    using f by (auto simp: find_None_iff)
  then obtain f1 where r: "refresh_from_db s f = Inr f1"
    by (auto simp: refresh_from_db_def get_by_pk_def find_flagged Cons.prems(1))
  from mark_step [OF d Cons.prems(1) r] obtain r0 where
    r0: "r0 \<in> set tbl" "feed_pk r0 = feed_pk f"
    and u: "f1\<lparr>use_proxy := True\<rparr> = r0\<lparr>use_proxy := True\<rparr>"
    and fl: "feeds (save_feed s (f1\<lparr>use_proxy := True\<rparr>)) = flagged (insert (feed_pk f) W) tbl"
    by blast
  from inj r0 f have "r0 = f" by (auto dest: inj_onD)
  with u have u': "f1\<lparr>use_proxy := True\<rparr> = f\<lparr>use_proxy := True\<rparr>" by simp
  from Cons.IH [OF fl] Cons.prems(2) obtain s' where
    "mark_loop (save_feed s (f1\<lparr>use_proxy := True\<rparr>)) pf = Inr s'"
    "writes s' = writes (save_feed s (f1\<lparr>use_proxy := True\<rparr>)) @
        map (\<lambda>f. SaveFeed (f\<lparr>use_proxy := True\<rparr>)) pf"
    by auto
  then show ?case
    using r u' by (simp add: save_feed_def)
qed

lemma probe_loop_result:
  assumes "probe_loop e net n fs pf pr = (pf', pr')"
  shows "\<exists>new. pr' = pr @ new \<and> pf' = pf @ map p_feed (filter (promoted e) new) \<and>
           map p_feed new = fs \<and>
           (\<forall>p \<in> set new. (p_proxy_status p \<noteq> None) = is_need_proxy e (p_status p)) \<and>
           (\<forall>p \<in> set new. \<exists>k. p_status p = net k (url (p_feed p)) False \<and>
              (\<forall>ps. p_proxy_status p = Some ps \<longrightarrow> ps = net (k + 1) (url (p_feed p)) True))"
  using assms
proof (induction fs arbitrary: n pf pr)
  case Nil
  then show ?case by simp
next
  case (Cons f fs)
  let ?status = "net n (url f) False"
  show ?case
  proof (cases "is_need_proxy e ?status")
    case True
    let ?ps = "net (n + 1) (url f) True"
    let ?p = "\<lparr>p_feed = f, p_status = ?status, p_proxy_status = Some ?ps\<rparr>"
    from Cons.prems True have "probe_loop e net (n + 2) fs
        (if ?ps = 200 then pf @ [f] else pf) (pr @ [?p]) = (pf', pr')"
      by (simp add: Let_def)
    from Cons.IH [OF this] obtain new where
      n: "pr' = (pr @ [?p]) @ new"
        "pf' = (if ?ps = 200 then pf @ [f] else pf) @ map p_feed (filter (promoted e) new)"
        "map p_feed new = fs"
        "\<forall>p \<in> set new. (p_proxy_status p \<noteq> None) = is_need_proxy e (p_status p)"
        "\<forall>p \<in> set new. \<exists>k. p_status p = net k (url (p_feed p)) False \<and>
              (\<forall>ps. p_proxy_status p = Some ps \<longrightarrow> ps = net (k + 1) (url (p_feed p)) True)"
      by blast
    have "\<exists>k. p_status ?p = net k (url (p_feed ?p)) False \<and>
              (\<forall>ps. p_proxy_status ?p = Some ps \<longrightarrow> ps = net (k + 1) (url (p_feed ?p)) True)"
      by (rule exI [of _ n]) simp
    moreover have "promoted e ?p = (?ps = 200)"
      using True by (simp add: promoted_def)
    ultimately show ?thesis
      using n True by (intro exI [of _ "?p # new"]) simp
  next
    case False
    let ?p = "\<lparr>p_feed = f, p_status = ?status, p_proxy_status = None\<rparr>"
    from Cons.prems False have "probe_loop e net (n + 1) fs pf (pr @ [?p]) = (pf', pr')"
      by (simp add: Let_def)
    from Cons.IH [OF this] obtain new where
      n: "pr' = (pr @ [?p]) @ new"
        "pf' = pf @ map p_feed (filter (promoted e) new)"
        "map p_feed new = fs"
        "\<forall>p \<in> set new. (p_proxy_status p \<noteq> None) = is_need_proxy e (p_status p)"
        "\<forall>p \<in> set new. \<exists>k. p_status p = net k (url (p_feed p)) False \<and>
              (\<forall>ps. p_proxy_status p = Some ps \<longrightarrow> ps = net (k + 1) (url (p_feed p)) True)"
      by blast
    have "\<exists>k. p_status ?p = net k (url (p_feed ?p)) False \<and>
              (\<forall>ps. p_proxy_status ?p = Some ps \<longrightarrow> ps = net (k + 1) (url (p_feed ?p)) True)"
      by (rule exI [of _ n]) simp
    moreover have "\<not> promoted e ?p"
      using False by (simp add: promoted_def)
    ultimately show ?thesis
      using n False by (intro exI [of _ "?p # new"]) simp
  qed
qed

lemma flagged_empty: "flagged {} tbl = tbl"
  by (simp add: flagged_def)

lemma promoted_eq:
  "promoted e = (\<lambda>p. is_need_proxy e (p_status p) \<and> p_proxy_status p = Some 200)"
  by (simp add: promoted_def fun_eq_iff)

text \<open>What a run of the command amounts to when the proxy is enabled.\<close>

lemma update_feed_use_proxy_run:
  assumes en: "rss_proxy_enable e" and d: "distinct (map feed_pk (feeds s))"
  shows "\<exists>probes s'.
           probe_loop e net 0 (filter (need_check e) (feeds s)) [] [] =
             (map p_feed (filter (promoted e) probes), probes) \<and>
           map p_feed probes = filter (need_check e) (feeds s) \<and>
           (\<forall>p \<in> set probes. (p_proxy_status p \<noteq> None) = is_need_proxy e (p_status p)) \<and>
           (\<forall>p \<in> set probes. \<exists>k. p_status p = net k (url (p_feed p)) False \<and>
              (\<forall>ps. p_proxy_status p = Some ps \<longrightarrow> ps = net (k + 1) (url (p_feed p)) True)) \<and>
           mark_loop s (map p_feed (filter (promoted e) probes)) = Inr s' \<and>
           writes s' = writes s @
             map (\<lambda>f. SaveFeed (f\<lparr>use_proxy := True\<rparr>)) (map p_feed (filter (promoted e) probes)) \<and>
           update_feed_use_proxy e net s =
             \<lparr>run_store = s', run_proxy_feeds = map p_feed (filter (promoted e) probes),
              run_probes = probes, run_error = None\<rparr>"
proof -
  obtain pf pr where pl: "probe_loop e net 0 (filter (need_check e) (feeds s)) [] [] = (pf, pr)"
    by (cases "probe_loop e net 0 (filter (need_check e) (feeds s)) [] []")
  from probe_loop_result [OF pl] have
    pf: "pf = map p_feed (filter (promoted e) pr)"
    and pr: "map p_feed pr = filter (need_check e) (feeds s)"
    and st: "\<forall>p \<in> set pr. (p_proxy_status p \<noteq> None) = is_need_proxy e (p_status p)"
      "\<forall>p \<in> set pr. \<exists>k. p_status p = net k (url (p_feed p)) False \<and>
              (\<forall>ps. p_proxy_status p = Some ps \<longrightarrow> ps = net (k + 1) (url (p_feed p)) True)"
    by auto
  have "set pf \<subseteq> set (map p_feed pr)"
    unfolding pf by auto
  then have sub: "set pf \<subseteq> set (feeds s)"
    unfolding pr by auto
  have "feeds s = flagged {} (feeds s)"
    by (simp add: flagged_empty)
  from mark_loop_rows [OF d this sub] obtain s' where
    m: "mark_loop s pf = Inr s'"
      "writes s' = writes s @ map (\<lambda>f. SaveFeed (f\<lparr>use_proxy := True\<rparr>)) pf"
    by blast
  have s': "pf = [] \<Longrightarrow> s' = s"
    using m by simp
  have "update_feed_use_proxy e net s =
          \<lparr>run_store = s', run_proxy_feeds = pf, run_probes = pr, run_error = None\<rparr>"
    using en pl m s' by (simp add: update_feed_use_proxy_def)
  with pl pf pr st m show ?thesis
    by blast
qed

text \<open>
  Claim C8. With the proxy enabled and distinct primary keys, the run probes exactly
  the selected feeds, in order. Each probe holds the status of a read without proxy
  and, exactly when that status needs a proxy, the status of the next read, made with the
  proxy. The final list holds the feeds of the probes whose first status needs a proxy
  and whose second status is 200, and no others; the run raises nothing and its writes
  are one save per feed of the list, with the flag set. So a feed whose proxied probe
  is not 200, or whose first probe does not need a proxy, is not on the list and is not
  written.
\<close>

theorem use_proxy_promotion:
  assumes "rss_proxy_enable e" and "distinct (map feed_pk (feeds s))"
  shows "map p_feed (run_probes (update_feed_use_proxy e net s)) =
           filter (need_check e) (feeds s) \<and>
         (\<forall>p \<in> set (run_probes (update_feed_use_proxy e net s)).
            (\<exists>k. p_status p = net k (url (p_feed p)) False \<and>
               (\<forall>ps. p_proxy_status p = Some ps \<longrightarrow> ps = net (k + 1) (url (p_feed p)) True)) \<and>
            (p_proxy_status p \<noteq> None) = is_need_proxy e (p_status p)) \<and>
         run_proxy_feeds (update_feed_use_proxy e net s) =
           map p_feed
             (filter (\<lambda>p. is_need_proxy e (p_status p) \<and> p_proxy_status p = Some 200)
                (run_probes (update_feed_use_proxy e net s))) \<and>
         (\<forall>f. f \<in> set (run_proxy_feeds (update_feed_use_proxy e net s)) \<longleftrightarrow>
            (\<exists>p \<in> set (run_probes (update_feed_use_proxy e net s)).
               p_feed p = f \<and> is_need_proxy e (p_status p) \<and> p_proxy_status p = Some 200)) \<and>
         run_error (update_feed_use_proxy e net s) = None \<and>
         writes (run_store (update_feed_use_proxy e net s)) =
           writes s @
             map (\<lambda>f. SaveFeed (f\<lparr>use_proxy := True\<rparr>))
               (run_proxy_feeds (update_feed_use_proxy e net s))"
proof -
  from update_feed_use_proxy_run [OF assms, of net] obtain probes s' where
    pr: "map p_feed probes = filter (need_check e) (feeds s)"
    and st: "\<forall>p \<in> set probes. (p_proxy_status p \<noteq> None) = is_need_proxy e (p_status p)"
      "\<forall>p \<in> set probes. \<exists>k. p_status p = net k (url (p_feed p)) False \<and>
              (\<forall>ps. p_proxy_status p = Some ps \<longrightarrow> ps = net (k + 1) (url (p_feed p)) True)"
    and w: "writes s' = writes s @
             map (\<lambda>f. SaveFeed (f\<lparr>use_proxy := True\<rparr>)) (map p_feed (filter (promoted e) probes))"
    and run: "update_feed_use_proxy e net s =
             \<lparr>run_store = s', run_proxy_feeds = map p_feed (filter (promoted e) probes),
              run_probes = probes, run_error = None\<rparr>"
    by blast
  have "f \<in> set (map p_feed (filter (promoted e) probes)) \<longleftrightarrow>
          (\<exists>p \<in> set probes. p_feed p = f \<and> is_need_proxy e (p_status p) \<and>
             p_proxy_status p = Some 200)" for f
    by (auto simp: promoted_def)
  with pr st w show ?thesis
    unfolding run by (simp add: promoted_eq)
qed

text \<open>
  Claim C9. On a feed table with distinct primary keys, the transaction that marks a
  list of feed objects, whatever their fields, leaves every row whose key is not on
  the list as it is and changes the others in \<open>use_proxy\<close> only, to \<open>True\<close>, starting
  from the row as stored; every write saves a feed with \<open>use_proxy = True\<close>. The same
  holds for a whole run of the command, with its final list, whether the proxy is
  enabled or not: no flag is cleared.
\<close>

theorem use_proxy_frame:
  assumes "distinct (map feed_pk (feeds s))"
  shows "(\<forall>s'. mark_loop s proxy_feeds = Inr s' \<longrightarrow>
            feeds s' =
              map (\<lambda>r. if feed_pk r \<in> feed_pk ` set proxy_feeds then r\<lparr>use_proxy := True\<rparr> else r)
                (feeds s) \<and>
            (\<exists>ws. writes s' = writes s @ ws \<and> (\<forall>w \<in> set ws. \<exists>f. w = SaveFeed f \<and> use_proxy f)) \<and>
            storys s' = storys s \<and> userstorys s' = userstorys s) \<and>
         feeds (run_store (update_feed_use_proxy e net s)) =
           map (\<lambda>r. if feed_pk r \<in> feed_pk ` set (run_proxy_feeds (update_feed_use_proxy e net s))
                     then r\<lparr>use_proxy := True\<rparr> else r)
             (feeds s) \<and>
         (\<exists>ws. writes (run_store (update_feed_use_proxy e net s)) = writes s @ ws \<and>
            (\<forall>w \<in> set ws. \<exists>f. w = SaveFeed f \<and> use_proxy f)) \<and>
         storys (run_store (update_feed_use_proxy e net s)) = storys s \<and>
         userstorys (run_store (update_feed_use_proxy e net s)) = userstorys s"
proof -
  have fl: "feeds s = flagged {} (feeds s)"
    by (simp add: flagged_empty)
  have mark: "feeds s' =
              map (\<lambda>r. if feed_pk r \<in> feed_pk ` set pf then r\<lparr>use_proxy := True\<rparr> else r) (feeds s) \<and>
            (\<exists>ws. writes s' = writes s @ ws \<and> (\<forall>w \<in> set ws. \<exists>f. w = SaveFeed f \<and> use_proxy f)) \<and>
            storys s' = storys s \<and> userstorys s' = userstorys s"
    if "mark_loop s pf = Inr s'" for s' pf
    using mark_loop_flagged [OF assms fl that] by (auto simp: flagged_def)
  show ?thesis
  proof (cases "rss_proxy_enable e")
    case False
    then have "update_feed_use_proxy e net s =
        \<lparr>run_store = s, run_proxy_feeds = [], run_probes = [], run_error = None\<rparr>"
      by (simp add: update_feed_use_proxy_def)
    with mark show ?thesis
      by (simp add: map_idI)
  next
    case True
    from update_feed_use_proxy_run [OF True assms, of net] obtain probes s' where
      m: "mark_loop s (map p_feed (filter (promoted e) probes)) = Inr s'"
      and run: "update_feed_use_proxy e net s =
             \<lparr>run_store = s', run_proxy_feeds = map p_feed (filter (promoted e) probes),
              run_probes = probes, run_error = None\<rparr>"
      by blast
    from mark [OF m] mark show ?thesis
      unfolding run by simp
  qed
qed

lemma proxy_run_probes:
  "map (\<lambda>p. (feed_pk (p_feed p), p_status p, p_proxy_status p))
     (run_probes (update_feed_use_proxy demo_env demo_net proxy_store)) =
     [(1, - 1, Some 200), (2, 200, None), (3, - 1, Some 502)]"
  by (simp add: update_feed_use_proxy_def demo_env_def demo_net_def proxy_store_def
      refresh_from_db_def get_by_pk_def save_feed_def Let_def)

lemma proxy_run_feeds:
  "map feed_pk (run_proxy_feeds (update_feed_use_proxy demo_env demo_net proxy_store)) = [1]"
  by (simp add: update_feed_use_proxy_def demo_env_def demo_net_def proxy_store_def
      refresh_from_db_def get_by_pk_def save_feed_def Let_def)

lemma proxy_run_flags:
  "map use_proxy (feeds (run_store (update_feed_use_proxy demo_env demo_net proxy_store))) =
     [True, True, False, False]"
  by (simp add: update_feed_use_proxy_def demo_env_def demo_net_def proxy_store_def
      refresh_from_db_def get_by_pk_def save_feed_def Let_def)

lemma proxy_store_pks: "distinct (map feed_pk (feeds proxy_store))"
  by (simp add: proxy_store_def)

text \<open>The witness of C8: the run on \<open>proxy_store\<close> puts feed 1 on the list, not feeds 2 and 3.\<close>

theorem use_proxy_promotion_witness:
  "rss_proxy_enable demo_env \<and> distinct (map feed_pk (feeds proxy_store)) \<and>
   map (\<lambda>p. (feed_pk (p_feed p), p_status p, p_proxy_status p))
     (run_probes (update_feed_use_proxy demo_env demo_net proxy_store)) =
     [(1, - 1, Some 200), (2, 200, None), (3, - 1, Some 502)] \<and>
   map feed_pk (run_proxy_feeds (update_feed_use_proxy demo_env demo_net proxy_store)) = [1] \<and>
   run_proxy_feeds (update_feed_use_proxy demo_env demo_net proxy_store) =
     map p_feed
       (filter (\<lambda>p. is_need_proxy demo_env (p_status p) \<and> p_proxy_status p = Some 200)
          (run_probes (update_feed_use_proxy demo_env demo_net proxy_store))) \<and>
   run_error (update_feed_use_proxy demo_env demo_net proxy_store) = None"
proof -
  have en: "rss_proxy_enable demo_env"
    by (simp add: demo_env_def)
  from use_proxy_promotion [OF en proxy_store_pks, of demo_net]
  have "run_proxy_feeds (update_feed_use_proxy demo_env demo_net proxy_store) =
     map p_feed
       (filter (\<lambda>p. is_need_proxy demo_env (p_status p) \<and> p_proxy_status p = Some 200)
          (run_probes (update_feed_use_proxy demo_env demo_net proxy_store))) \<and>
     run_error (update_feed_use_proxy demo_env demo_net proxy_store) = None"
    by blast
  with en proxy_store_pks proxy_run_probes proxy_run_feeds show ?thesis
    by blast
qed

text \<open>The witness of C9: feed 1 gets its flag, feed 2 keeps the flag it had.\<close>

theorem use_proxy_frame_witness:
  "distinct (map feed_pk (feeds proxy_store)) \<and>
   map use_proxy (feeds proxy_store) = [False, True, False, False] \<and>
   map use_proxy (feeds (run_store (update_feed_use_proxy demo_env demo_net proxy_store))) =
     [True, True, False, False] \<and>
   feeds (run_store (update_feed_use_proxy demo_env demo_net proxy_store)) =
     map (\<lambda>r. if feed_pk r \<in>
                  feed_pk ` set (run_proxy_feeds (update_feed_use_proxy demo_env demo_net proxy_store))
               then r\<lparr>use_proxy := True\<rparr> else r)
       (feeds proxy_store)"
proof -
  have "map use_proxy (feeds proxy_store) = [False, True, False, False]"
    by (simp add: proxy_store_def)
  moreover from use_proxy_frame [OF proxy_store_pks, of "[]" demo_env demo_net]
  have "feeds (run_store (update_feed_use_proxy demo_env demo_net proxy_store)) =
     map (\<lambda>r. if feed_pk r \<in>
                  feed_pk ` set (run_proxy_feeds (update_feed_use_proxy demo_env demo_net proxy_store))
               then r\<lparr>use_proxy := True\<rparr> else r)
       (feeds proxy_store)"
    by blast
  ultimately show ?thesis
    using proxy_store_pks proxy_run_flags by blast
qed

subsection \<open>refresh_feed\<close>















subsection \<open>Python floating-point arithmetic\<close>

lemma bit_length_nonpos: "n \<le> 0 \<Longrightarrow> bit_length n = 0"
  by (subst bit_length.simps) simp

lemma bit_length_pos: "0 < n \<Longrightarrow> bit_length n = Suc (bit_length (n div 2))"
  by (subst bit_length.simps) simp

lemma bit_length_le: "n < 2 ^ k \<Longrightarrow> bit_length n \<le> k"
proof (induction k arbitrary: n)
  case 0
  then show ?case by (simp add: bit_length_nonpos)
next
  case (Suc k)
  show ?case
  proof (cases "0 < n")
    case True
    from Suc.prems have "n div 2 < 2 ^ k" by simp
    from Suc.IH [OF this] True show ?thesis by (simp add: bit_length_pos)
  next
    case False
    then show ?thesis by (simp add: bit_length_nonpos)
  qed
qed

lemma bit_length_bound: "n < 2 ^ bit_length n"
proof (induction n rule: bit_length.induct)
  case (1 n)
  show ?case
  proof (cases "0 < n")
    case True
    with 1 have "n div 2 < 2 ^ bit_length (n div 2)" by simp
    then have "n < 2 * 2 ^ bit_length (n div 2)" by linarith
    with True show ?thesis by (simp add: bit_length_pos)
  next
    case False
    then have "n < 1" by simp
    with False show ?thesis by (simp add: bit_length_nonpos)
  qed
qed

lemma bit_length_mono: "p \<le> q \<Longrightarrow> bit_length p \<le> bit_length q"
proof -
  assume "p \<le> q"
  with bit_length_bound [of q] have "p < 2 ^ bit_length q" by simp
  then show ?thesis by (rule bit_length_le)
qed

lemma bit_length_double: "0 < n \<Longrightarrow> bit_length (2 * n) = Suc (bit_length n)"
  by (subst bit_length.simps) simp

lemma bit_length_shift: "0 < q \<Longrightarrow> bit_length (q * 2 ^ j) = bit_length q + j"
proof (induction j)
  case 0
  then show ?case by simp
next
  case (Suc j)
  then have "0 < q * 2 ^ j" by simp
  from bit_length_double [OF this] Suc show ?case by (simp add: mult.commute mult.left_commute)
qed

lemma round_half_even_bounds:
  assumes "0 < q"
  shows "p div q \<le> round_half_even p q \<and> round_half_even p q \<le> p div q + 1"
  by (simp add: round_half_even_def Let_def)

text \<open>The exponent of a rounded quotient.\<close>

lemma float_round_exponent:
  assumes p: "0 < p" and q: "0 < q" and b: "p \<le> q * 2 ^ j"
  shows "snd (float_round p q) \<le> max (int j - 52) (- 1074)"
proof -
  from b have "bit_length p \<le> bit_length (q * 2 ^ j)" by (rule bit_length_mono)
  with q have e0: "int (bit_length \<bar>p\<bar>) - int (bit_length q) \<le> int j"
    using p by (simp add: bit_length_shift)
  with p show ?thesis
    by (simp add: float_round_def Let_def)
qed

lemma float_round_mantissa:
  assumes p: "0 < p" and q: "0 < q" and x: "snd (float_round p q) < 0"
  shows "0 \<le> fst (float_round p q) \<and>
         fst (float_round p q) \<le> (p * 2 ^ nat (- snd (float_round p q))) div q + 1"
proof -
  obtain m y where r: "float_round p q = (m, y)" by (cases "float_round p q")
  with x have y: "y < 0" by simp
  from r p y have m: "m = round_half_even (p * 2 ^ nat (- y)) q"
    by (auto simp: float_round_def Let_def split: if_splits)
  from p q have "0 \<le> (p * 2 ^ nat (- y)) div q"
    by (simp add: pos_imp_zdiv_nonneg_iff)
  with round_half_even_bounds [OF q, of "p * 2 ^ nat (- y)"] m r show ?thesis
    by simp
qed

lemma float_round_self:
  assumes "0 < n"
  shows "float_round n n = (2 ^ 52, - 52)"
proof -
  have "(n * 2 ^ 52) div n = 2 ^ 52" "(n * 2 ^ 52) mod n = 0"
    using assms by simp_all
  then have "round_half_even (n * 2 ^ 52) n = 2 ^ 52"
    using assms by (simp add: round_half_even_def)
  then show ?thesis
    using assms by (simp add: float_round_def)
qed

lemma hundred_percent: "py_round (float_times (2 ^ 52, - 52) 100) = Inr 100"
  by (simp add: float_times_def float_round_def bit_length.simps round_half_even_def
      is_finite_def py_round_def Let_def)

lemma error_percent_self:
  assumes "0 < n"
  shows "error_percent_of n n = Inr 100"
  using assms float_round_self [OF assms] hundred_percent
  by (simp add: error_percent_of_def py_truediv_def is_finite_def)

lemma is_finite_neg: "x < 0 \<Longrightarrow> is_finite (m, x)"
  by (simp add: is_finite_def)

lemma py_round_neg: "x < 0 \<Longrightarrow> \<exists>p. py_round (m, x) = Inr p"
  by (simp add: py_round_def is_finite_def)

lemma error_percent_total:
  assumes a: "0 < a" and b: "0 \<le> b"
  shows "\<exists>p. error_percent_of a (a + b) = Inr p"
proof -
  from a b have n: "0 < a + b" by simp
  obtain m x where r: "float_round a (a + b) = (m, x)" by (cases "float_round a (a + b)")
  from b have "a \<le> (a + b) * 2 ^ 0" by simp
  from float_round_exponent [OF a n this] r have x: "x \<le> - 52" by simp
  then have x0: "x < 0" by simp
  from n r x0 have q: "py_truediv a (a + b) = Inr (m, x)"
    by (simp add: py_truediv_def is_finite_neg)
  define k where "k = nat (- x)"
  from x have k: "52 \<le> k" by (simp add: k_def)
  have "a * 2 ^ k \<le> (a + b) * 2 ^ k"
    using b by (intro mult_right_mono) simp_all
  then have "(a * 2 ^ k) div (a + b) \<le> ((a + b) * 2 ^ k) div (a + b)"
    using n by (intro zdiv_mono1) simp_all
  also have "\<dots> = 2 ^ k" using n by simp
  finally have d: "(a * 2 ^ k) div (a + b) \<le> 2 ^ k" .
  from float_round_mantissa [OF a n] r x0 d
  have m: "0 \<le> m" "m \<le> 2 ^ k + 1" by (simp_all add: k_def)
  have t: "float_times (m, x) 100 = float_round (m * 100) (2 ^ k)"
    using x0 by (simp add: float_times_def k_def)
  have "\<exists>p. py_round (float_round (m * 100) (2 ^ k)) = Inr p"
  proof (cases "m = 0")
    case True
    then show ?thesis
      by (simp add: float_round_def py_round_def is_finite_def)
  next
    case False
    with m(1) have mp: "0 < m * 100" by simp
    have "(2 :: int) ^ 52 \<le> 2 ^ k" using k by (intro power_increasing) simp_all
    then have "(100 :: int) \<le> 28 * 2 ^ k" by simp
    with m(2) have "m * 100 \<le> 2 ^ k * 2 ^ 7" by simp
    from float_round_exponent [OF mp _ this]
    have "snd (float_round (m * 100) (2 ^ k)) < 0" by simp
    with py_round_neg [of "snd (float_round (m * 100) (2 ^ k))" "fst (float_round (m * 100) (2 ^ k))"]
    show ?thesis by simp
  qed
  with q t show ?thesis
    by (simp add: error_percent_of_def)
qed

subsection \<open>delete_invalid_feeds\<close>

lemma update_values:
  "snd ` set (AList.update k v al) \<subseteq> insert v (snd ` set al)"
  by (induction al) auto

lemma sum_list_pos:
  assumes "xs \<noteq> []" and "\<forall>x \<in> set xs. (0 :: int) < x"
  shows "0 < sum_list xs"
  using assms
proof (induction xs)
  case Nil
  then show ?case by simp
next
  case (Cons a xs)
  show ?case
  proof (cases "xs = []")
    case True
    with Cons.prems show ?thesis by simp
  next
    case False
    with Cons have "0 < sum_list xs" "0 < a" by simp_all
    then show ?thesis by simp
  qed
qed

lemma update_values_pos:
  assumes "\<forall>c \<in> snd ` set al. (0 :: int) < c" and "0 < v"
  shows "\<forall>c \<in> snd ` set (AList.update k v al). 0 < c"
  using update_values [of k v al] assms by blast

lemma add_error_row_fresh:
  assumes "fresh_report d" and "0 < er_count row"
  shows "fresh_report (add_error_row e d row)"
proof -
  define error where
    "error = (case map_of d (er_feed_id row) of None \<Rightarrow> [] | Some feed \<Rightarrow> ef_error feed)"
  define error' where
    "error' = AList.update (name_of e (er_status_code row)) (er_count row) error"
  define new where
    "new = \<lparr>ef_feed_id = er_feed_id row, ef_title = er_title row, ef_link = er_link row,
            ef_url = er_url row, ef_error = error',
            ef_error_count = sum_list (map snd error'),
            ef_ok_count = 0, ef_error_percent = 100\<rparr>"
  have eq: "add_error_row e d row = AList.update (er_feed_id row) new d"
    by (simp add: add_error_row_def Let_def new_def error'_def error_def)
  have old: "\<forall>c \<in> snd ` set error. 0 < c"
  proof (cases "map_of d (er_feed_id row)")
    case None
    then show ?thesis by (simp add: error_def)
  next
    case (Some feed)
    with assms(1) have "\<forall>c \<in> snd ` set (ef_error feed). 0 < c"
      unfolding fresh_report_def by blast
    with Some show ?thesis by (simp add: error_def)
  qed
  have pos: "\<forall>c \<in> snd ` set error'. 0 < c"
    unfolding error'_def by (rule update_values_pos [OF old assms(2)])
  have ne: "error' \<noteq> []"
    by (simp add: error'_def)
  show ?thesis
    unfolding fresh_report_def
  proof (intro conjI allI impI)
    show "distinct (map fst (add_error_row e d row))"
      using assms(1) by (simp add: eq fresh_report_def AList.distinct_update)
  next
    fix k f
    assume m: "map_of (add_error_row e d row) k = Some f"
    have "ef_feed_id f = k \<and> ef_error f \<noteq> [] \<and> (\<forall>c \<in> snd ` set (ef_error f). 0 < c) \<and>
         ef_error_count f = sum_list (map snd (ef_error f)) \<and>
         ef_ok_count f = 0 \<and> ef_error_percent f = 100"
    proof (cases "k = er_feed_id row")
      case True
      with m have "f = new" by (simp add: eq AList.update_conv')
      with True pos ne show ?thesis by (simp add: new_def)
    next
      case False
      with m have "map_of d k = Some f" by (simp add: eq AList.update_conv')
      with assms(1) show ?thesis unfolding fresh_report_def by blast
    qed
    then show "ef_feed_id f = k" "ef_error f \<noteq> []" "\<forall>c \<in> snd ` set (ef_error f). 0 < c"
      "ef_error_count f = sum_list (map snd (ef_error f))" "ef_ok_count f = 0"
      "ef_error_percent f = 100"
      by blast+
  qed
qed

lemma foldl_add_error_row_fresh:
  assumes "fresh_report d" and "counts_positive rows"
  shows "fresh_report (foldl (add_error_row e) d rows)"
  using assms
  by (induction rows arbitrary: d) (auto simp: counts_positive_def add_error_row_fresh)

lemma fresh_report_Nil: "fresh_report []"
  by (simp add: fresh_report_def)

lemma fresh_rated:
  assumes "fresh_report d"
  shows "rated_report d"
  unfolding rated_report_def
proof (intro conjI allI impI)
  show "distinct (map fst d)" using assms by (simp add: fresh_report_def)
next
  fix k f assume m: "map_of d k = Some f"
  with assms have f: "ef_feed_id f = k" "ef_error f \<noteq> []" "\<forall>c \<in> snd ` set (ef_error f). 0 < c"
    "ef_error_count f = sum_list (map snd (ef_error f))" "ef_ok_count f = 0"
    "ef_error_percent f = 100"
    unfolding fresh_report_def by blast+
  from f(2,3) have "0 < sum_list (map snd (ef_error f))"
    by (intro sum_list_pos) auto
  with f(4) have pos: "0 < ef_error_count f" by simp
  show "ef_feed_id f = k" by (rule f(1))
  show "0 < ef_error_count f" by (rule pos)
  show "error_percent_of (ef_error_count f) (ef_error_count f + ef_ok_count f) =
           Inr (ef_error_percent f)"
    using error_percent_self [OF pos] f(5,6) by simp
qed

lemma add_ok_row_rated:
  assumes "rated_report d" and "add_ok_row d row = Inr d'"
  shows "rated_report d'"
proof -
  obtain feed_id ok_count where row: "row = (feed_id, ok_count)" by (cases row)
  from assms(2) row obtain feed p where
    m: "map_of d feed_id = Some feed"
    and p: "error_percent_of (ef_error_count feed) (ef_error_count feed + ok_count) = Inr p"
    and d': "d' = AList.update feed_id (feed\<lparr>ef_ok_count := ok_count, ef_error_percent := p\<rparr>) d"
    by (auto simp: add_ok_row_def split: option.splits sum.splits)
  from assms(1) m have "ef_feed_id feed = feed_id" "0 < ef_error_count feed"
    unfolding rated_report_def by blast+
  with assms(1) p show ?thesis
    unfolding rated_report_def d'
    by (auto simp: AList.update_conv' AList.distinct_update)
qed



lemma propose_filter:
  "propose threshold fs ids out =
     (ids @ map ef_feed_id (filter (\<lambda>f. threshold \<le> ef_error_percent f) fs),
      out @ map EchoFeed (filter (\<lambda>f. threshold \<le> ef_error_percent f) fs))"
  by (induction fs arbitrary: ids out) simp_all

text \<open>What a successful run returns.\<close>

lemma delete_invalid_feeds_run:
  assumes "delete_invalid_feeds e error_rows ok_rows threshold confirm = Inr r"
  shows "\<exists>d. ok_loop (foldl (add_error_row e) [] error_rows) ok_rows = Inr d \<and>
           dr_error_feeds r = sort_key (\<lambda>x. - ef_error_percent x) (map snd d) \<and>
           dr_delete_feed_ids r =
             map ef_feed_id (filter (\<lambda>f. threshold \<le> ef_error_percent f) (dr_error_feeds r)) \<and>
           dr_events r =
             map EchoFeed (filter (\<lambda>f. threshold \<le> ef_error_percent f) (dr_error_feeds r)) @
             (if dr_delete_feed_ids r \<noteq> []
              then Confirm (length (dr_delete_feed_ids r)) #
                     (if \<not> confirm then [EchoAbort]
                      else [BulkDelete (dr_delete_feed_ids r), EchoDone])
              else [])"
  using assms
  by (auto simp: delete_invalid_feeds_def propose_filter Let_def split: sum.splits)

lemma add_error_row_keys:
  "fst ` set (add_error_row e d row) = insert (er_feed_id row) (fst ` set d)"
  by (simp add: add_error_row_def Let_def AList.dom_update)

lemma foldl_add_error_row_keys:
  "fst ` set (foldl (add_error_row e) d rows) = fst ` set d \<union> er_feed_id ` set rows"
  by (induction rows arbitrary: d) (simp_all add: add_error_row_keys)

lemma add_ok_row_keys:
  assumes "add_ok_row d row = Inr d'"
  shows "fst ` set d' = fst ` set d"
proof -
  obtain feed_id ok_count where row: "row = (feed_id, ok_count)" by (cases row)
  from assms row obtain feed p where
    m: "map_of d feed_id = Some feed"
    and d': "d' = AList.update feed_id (feed\<lparr>ef_ok_count := ok_count, ef_error_percent := p\<rparr>) d"
    by (auto simp: add_ok_row_def split: option.splits sum.splits)
  from m have "feed_id \<in> fst ` set d"
    by (metis domI dom_map_of_conv_image_fst)
  then show ?thesis
    unfolding d' by (auto simp: AList.dom_update)
qed


lemma add_ok_row_total:
  assumes r: "rated_report d" and k: "fst row \<in> fst ` set d" and c: "0 \<le> snd row"
  shows "\<exists>d'. add_ok_row d row = Inr d'"
proof -
  obtain feed_id ok_count where row: "row = (feed_id, ok_count)" by (cases row)
  from k row obtain feed where m: "map_of d feed_id = Some feed"
    by (metis domD dom_map_of_conv_image_fst fst_conv)
  with r have "0 < ef_error_count feed"
    unfolding rated_report_def by blast
  from error_percent_total [OF this, of ok_count] c row obtain p where
    "error_percent_of (ef_error_count feed) (ef_error_count feed + ok_count) = Inr p"
    by auto
  with m row show ?thesis
    by (simp add: add_ok_row_def)
qed

lemma ok_loop_total:
  assumes "rated_report d" and "\<forall>row \<in> set rows. fst row \<in> fst ` set d \<and> 0 \<le> snd row"
  shows "\<exists>d'. ok_loop d rows = Inr d'"
  using assms
proof (induction rows arbitrary: d)
  case Nil
  then show ?case by simp
next
  case (Cons row rows)
  from Cons.prems have "fst row \<in> fst ` set d" "0 \<le> snd row" by simp_all
  from add_ok_row_total [OF Cons.prems(1) this] obtain d1 where
    d1: "add_ok_row d row = Inr d1" by blast
  from add_ok_row_rated [OF Cons.prems(1) d1] have r1: "rated_report d1" .
  from add_ok_row_keys [OF d1] Cons.prems(2)
  have "\<forall>row \<in> set rows. fst row \<in> fst ` set d1 \<and> 0 \<le> snd row" by simp
  from Cons.IH [OF r1 this] d1 show ?case by simp
qed

lemma delete_invalid_feeds_total:
  assumes "counts_positive error_rows" and "ok_rows_listed error_rows ok_rows"
  shows "\<exists>r. delete_invalid_feeds e error_rows ok_rows threshold confirm = Inr r"
proof -
  let ?d = "foldl (add_error_row e) [] error_rows"
  from foldl_add_error_row_fresh [OF fresh_report_Nil assms(1), of e]
  have "rated_report ?d" by (rule fresh_rated)
  moreover from assms(2) have "\<forall>row \<in> set ok_rows. fst row \<in> fst ` set ?d \<and> 0 \<le> snd row"
    by (simp add: ok_rows_listed_def list_all_iff foldl_add_error_row_keys)
  ultimately obtain d' where "ok_loop ?d ok_rows = Inr d'"
    using ok_loop_total by blast
  then show ?thesis
    by (simp add: delete_invalid_feeds_def Let_def split: prod.splits)
qed

text \<open>The report is keyed by feed id, whatever the rows are.\<close>

lemma add_error_row_keyed:
  assumes "keyed_report d"
  shows "keyed_report (add_error_row e d row)"
  using assms
  unfolding keyed_report_def add_error_row_def Let_def
  by (auto simp: AList.update_conv' AList.distinct_update)

lemma foldl_add_error_row_keyed:
  assumes "keyed_report d"
  shows "keyed_report (foldl (add_error_row e) d rows)"
  using assms
  by (induction rows arbitrary: d) (simp_all add: add_error_row_keyed)

lemma add_ok_row_keyed:
  assumes "keyed_report d" and "add_ok_row d row = Inr d'"
  shows "keyed_report d'"
proof -
  obtain feed_id ok_count where row: "row = (feed_id, ok_count)" by (cases row)
  from assms(2) row obtain feed p where
    m: "map_of d feed_id = Some feed"
    and d': "d' = AList.update feed_id (feed\<lparr>ef_ok_count := ok_count, ef_error_percent := p\<rparr>) d"
    by (auto simp: add_ok_row_def split: option.splits sum.splits)
  from assms(1) m have "ef_feed_id feed = feed_id"
    unfolding keyed_report_def by blast
  with assms(1) show ?thesis
    unfolding keyed_report_def d'
    by (auto simp: AList.update_conv' AList.distinct_update)
qed

lemma ok_loop_keyed:
  assumes "keyed_report d" and "ok_loop d rows = Inr d'"
  shows "keyed_report d'"
  using assms
proof (induction rows arbitrary: d)
  case Nil
  then show ?case by simp
next
  case (Cons row rows)
  from Cons.prems(2) obtain d1 where d1: "add_ok_row d row = Inr d1" "ok_loop d1 rows = Inr d'"
    by (auto split: sum.splits)
  from add_ok_row_keyed [OF Cons.prems(1) d1(1)] d1(2) show ?case
    by (rule Cons.IH)
qed

lemma keyed_report_inj:
  assumes "keyed_report d"
  shows "inj_on ef_feed_id (set (map snd d))"
proof (rule inj_onI)
  fix f g assume f: "f \<in> set (map snd d)" and g: "g \<in> set (map snd d)"
    and eq: "ef_feed_id f = ef_feed_id g"
  from f obtain k where k: "(k, f) \<in> set d" by auto
  from g obtain j where j: "(j, g) \<in> set d" by auto
  from assms have dist: "distinct (map fst d)" by (simp add: keyed_report_def)
  from dist k have mk: "map_of d k = Some f" by simp
  from dist j have mj: "map_of d j = Some g" by simp
  from assms mk mj have "ef_feed_id f = k" "ef_feed_id g = j"
    unfolding keyed_report_def by blast+
  with eq mk mj show "f = g" by simp
qed



lemma report_rows_positive: "counts_positive report_rows"
  by (simp add: counts_positive_def report_rows_def)

lemma report_ok_rows_listed: "ok_rows_listed report_rows report_ok_rows"
  by (simp add: ok_rows_listed_def report_rows_def report_ok_rows_def)

lemma report_run_confirmed:
  "(case delete_invalid_feeds demo_env report_rows report_ok_rows 99 True of
      Inl er \<Rightarrow> False
    | Inr r \<Rightarrow>
        map (\<lambda>f. (ef_feed_id f, ef_error_count f, ef_ok_count f, ef_error_percent f))
          (dr_error_feeds r) = [(2, 10, 0, 100), (1, 99, 1, 99), (3, 98, 2, 98)] \<and>
        dr_delete_feed_ids r = [2, 1] \<and>
        drop 2 (dr_events r) = [Confirm 2, BulkDelete [2, 1], EchoDone])"
  by code_simp

lemma report_run_rejected:
  "(case delete_invalid_feeds demo_env report_rows report_ok_rows 99 False of
      Inl er \<Rightarrow> False
    | Inr r \<Rightarrow>
        dr_delete_feed_ids r = [2, 1] \<and>
        drop 2 (dr_events r) = [Confirm 2, EchoAbort])"
  by code_simp


text \<open>
  Claim C4. In a run of \<^verbatim>\<open>delete_invalid_feeds\<close> a candidate feed is in the list of
  proposed deletions if and only if its \<open>error_percent\<close> is at least the threshold.
  The proposed feeds are displayed, then one confirmation is asked if the list is not
  empty; the only bulk deletion is that of exactly the proposed feeds after a positive
  answer, and there is none after a negative answer. The run returns when the rows are
  those the two queries can give.
\<close>

theorem delete_gate:
  "(\<forall>r. delete_invalid_feeds e error_rows ok_rows threshold confirm = Inr r \<longrightarrow>
      (\<forall>f \<in> set (dr_error_feeds r).
         ef_feed_id f \<in> set (dr_delete_feed_ids r) \<longleftrightarrow> threshold \<le> ef_error_percent f) \<and>
      dr_delete_feed_ids r =
        map ef_feed_id (filter (\<lambda>f. threshold \<le> ef_error_percent f) (dr_error_feeds r)) \<and>
      dr_events r =
        map EchoFeed (filter (\<lambda>f. threshold \<le> ef_error_percent f) (dr_error_feeds r)) @
        (if dr_delete_feed_ids r = [] then []
         else if confirm
           then [Confirm (length (dr_delete_feed_ids r)), BulkDelete (dr_delete_feed_ids r),
                 EchoDone]
           else [Confirm (length (dr_delete_feed_ids r)), EchoAbort]) \<and>
      (\<forall>ids. BulkDelete ids \<in> set (dr_events r) \<longleftrightarrow>
         confirm \<and> ids = dr_delete_feed_ids r \<and> ids \<noteq> [])) \<and>
   (counts_positive error_rows \<and> ok_rows_listed error_rows ok_rows \<longrightarrow>
      (\<exists>r. delete_invalid_feeds e error_rows ok_rows threshold confirm = Inr r))"
proof (intro conjI allI impI)
  fix r assume run: "delete_invalid_feeds e error_rows ok_rows threshold confirm = Inr r"
  let ?P = "\<lambda>f. threshold \<le> ef_error_percent f"
  from delete_invalid_feeds_run [OF run] obtain d where
    d: "ok_loop (foldl (add_error_row e) [] error_rows) ok_rows = Inr d"
    and fs: "dr_error_feeds r = sort_key (\<lambda>x. - ef_error_percent x) (map snd d)"
    and ids: "dr_delete_feed_ids r = map ef_feed_id (filter ?P (dr_error_feeds r))"
    and ev: "dr_events r =
             map EchoFeed (filter ?P (dr_error_feeds r)) @
             (if dr_delete_feed_ids r \<noteq> []
              then Confirm (length (dr_delete_feed_ids r)) #
                     (if \<not> confirm then [EchoAbort]
                      else [BulkDelete (dr_delete_feed_ids r), EchoDone])
              else [])"
    by blast
  have "keyed_report []" by (simp add: keyed_report_def)
  from ok_loop_keyed [OF foldl_add_error_row_keyed [OF this] d] have "keyed_report d" .
  from keyed_report_inj [OF this] fs have inj: "inj_on ef_feed_id (set (dr_error_feeds r))"
    by simp
  show "\<forall>f \<in> set (dr_error_feeds r).
         ef_feed_id f \<in> set (dr_delete_feed_ids r) \<longleftrightarrow> threshold \<le> ef_error_percent f"
  proof
    fix f assume f: "f \<in> set (dr_error_feeds r)"
    show "ef_feed_id f \<in> set (dr_delete_feed_ids r) \<longleftrightarrow> threshold \<le> ef_error_percent f"
    proof
      assume "ef_feed_id f \<in> set (dr_delete_feed_ids r)"
      with ids obtain g where g: "g \<in> set (dr_error_feeds r)" "?P g"
        "ef_feed_id g = ef_feed_id f"
        by auto
      from inj_onD [OF inj g(3) g(1) f] g(2) show "?P f" by simp
    next
      assume "?P f"
      with f ids show "ef_feed_id f \<in> set (dr_delete_feed_ids r)" by simp
    qed
  qed
  show "dr_delete_feed_ids r = map ef_feed_id (filter ?P (dr_error_feeds r))"
    by (rule ids)
  show e2: "dr_events r =
        map EchoFeed (filter ?P (dr_error_feeds r)) @
        (if dr_delete_feed_ids r = [] then []
         else if confirm
           then [Confirm (length (dr_delete_feed_ids r)), BulkDelete (dr_delete_feed_ids r),
                 EchoDone]
           else [Confirm (length (dr_delete_feed_ids r)), EchoAbort])"
    using ev by simp
  show "BulkDelete ids \<in> set (dr_events r) \<longleftrightarrow>
         confirm \<and> ids = dr_delete_feed_ids r \<and> ids \<noteq> []" for ids
    unfolding e2 by auto
next
  assume "counts_positive error_rows \<and> ok_rows_listed error_rows ok_rows"
  then show "\<exists>r. delete_invalid_feeds e error_rows ok_rows threshold confirm = Inr r"
    by (blast intro: delete_invalid_feeds_total)
qed

text \<open>
  The witness: with threshold 99 the feeds at 100 and 99 are proposed and the feed at 98
  is not; the two are deleted after a positive answer, and nothing is after a negative
  one.
\<close>

theorem delete_gate_witness:
  "counts_positive report_rows \<and> ok_rows_listed report_rows report_ok_rows \<and>
   (\<exists>r. delete_invalid_feeds demo_env report_rows report_ok_rows 99 True = Inr r \<and>
      map (\<lambda>f. (ef_feed_id f, ef_error_count f, ef_ok_count f, ef_error_percent f))
        (dr_error_feeds r) = [(2, 10, 0, 100), (1, 99, 1, 99), (3, 98, 2, 98)] \<and>
      dr_delete_feed_ids r = [2, 1] \<and>
      dr_delete_feed_ids r =
        map ef_feed_id (filter (\<lambda>f. 99 \<le> ef_error_percent f) (dr_error_feeds r)) \<and>
      drop 2 (dr_events r) = [Confirm 2, BulkDelete [2, 1], EchoDone]) \<and>
   (\<exists>r. delete_invalid_feeds demo_env report_rows report_ok_rows 99 False = Inr r \<and>
      dr_delete_feed_ids r = [2, 1] \<and>
      drop 2 (dr_events r) = [Confirm 2, EchoAbort] \<and>
      list_all (\<lambda>ev. ev \<noteq> BulkDelete (dr_delete_feed_ids r)) (dr_events r))"
proof -
  note yes = delete_gate [of demo_env report_rows report_ok_rows 99 True]
  note no = delete_gate [of demo_env report_rows report_ok_rows 99 False]
  from yes report_rows_positive report_ok_rows_listed obtain r where
    r: "delete_invalid_feeds demo_env report_rows report_ok_rows 99 True = Inr r"
    by blast
  from no report_rows_positive report_ok_rows_listed obtain r' where
    r': "delete_invalid_feeds demo_env report_rows report_ok_rows 99 False = Inr r'"
    by blast
  from report_run_confirmed r
  have v: "map (\<lambda>f. (ef_feed_id f, ef_error_count f, ef_ok_count f, ef_error_percent f))
        (dr_error_feeds r) = [(2, 10, 0, 100), (1, 99, 1, 99), (3, 98, 2, 98)]"
    "dr_delete_feed_ids r = [2, 1]"
    "drop 2 (dr_events r) = [Confirm 2, BulkDelete [2, 1], EchoDone]"
    by simp_all
  from report_run_rejected r'
  have v': "dr_delete_feed_ids r' = [2, 1]" "drop 2 (dr_events r') = [Confirm 2, EchoAbort]"
    by simp_all
  from yes r have i: "dr_delete_feed_ids r =
        map ef_feed_id (filter (\<lambda>f. 99 \<le> ef_error_percent f) (dr_error_feeds r))"
    by blast
  from no r' have "BulkDelete (dr_delete_feed_ids r') \<notin> set (dr_events r')"
    by blast
  then have n: "list_all (\<lambda>ev. ev \<noteq> BulkDelete (dr_delete_feed_ids r')) (dr_events r')"
    by (auto simp: list_all_iff)
  from r v i have "\<exists>r. delete_invalid_feeds demo_env report_rows report_ok_rows 99 True = Inr r \<and>
      map (\<lambda>f. (ef_feed_id f, ef_error_count f, ef_ok_count f, ef_error_percent f))
        (dr_error_feeds r) = [(2, 10, 0, 100), (1, 99, 1, 99), (3, 98, 2, 98)] \<and>
      dr_delete_feed_ids r = [2, 1] \<and>
      dr_delete_feed_ids r =
        map ef_feed_id (filter (\<lambda>f. 99 \<le> ef_error_percent f) (dr_error_feeds r)) \<and>
      drop 2 (dr_events r) = [Confirm 2, BulkDelete [2, 1], EchoDone]"
    by - (rule exI [of _ r], intro conjI, assumption+)
  moreover from r' v' n
  have "\<exists>r. delete_invalid_feeds demo_env report_rows report_ok_rows 99 False = Inr r \<and>
      dr_delete_feed_ids r = [2, 1] \<and>
      drop 2 (dr_events r) = [Confirm 2, EchoAbort] \<and>
      list_all (\<lambda>ev. ev \<noteq> BulkDelete (dr_delete_feed_ids r)) (dr_events r)"
    by - (rule exI [of _ r'], intro conjI, assumption+)
  ultimately show ?thesis
    using report_rows_positive report_ok_rows_listed
    by - (intro conjI, assumption+)
qed

end
